theory Spec2Isabelle
  imports Complex_Main
begin

section \<open>Floating-point operations\<close>

text \<open>
  The solver computes on C \<open>float\<close> and \<open>double\<close> values with the operations of the
  language and of \<open>math.h\<close>.  Neither the number format nor the library is part of the
  repository, so the model takes them as a parameter: a record of operations on an
  arbitrary type \<open>'f\<close> of numbers.  The two precisions are not told apart; a conversion
  between them is part of the operation that follows it.  Everything proved for an
  arbitrary record holds whatever the arithmetic does (rounding, infinities, NaN).
  Statements about exact arithmetic are made for the instance \<open>real_ops\<close>; what the
  code does once a NaN has arisen is evaluated in the instance \<open>nan_ops\<close>.
\<close>

record 'f fops =
  fadd :: "'f \<Rightarrow> 'f \<Rightarrow> 'f"
  fsub :: "'f \<Rightarrow> 'f \<Rightarrow> 'f"
  fmul :: "'f \<Rightarrow> 'f \<Rightarrow> 'f"
  fdiv :: "'f \<Rightarrow> 'f \<Rightarrow> 'f"
  fneg :: "'f \<Rightarrow> 'f"
  fsqrt :: "'f \<Rightarrow> 'f"
  fsin :: "'f \<Rightarrow> 'f"
  fcos :: "'f \<Rightarrow> 'f"
  facos :: "'f \<Rightarrow> 'f"
  fcopysign :: "'f \<Rightarrow> 'f \<Rightarrow> 'f"
  flt :: "'f \<Rightarrow> 'f \<Rightarrow> bool"
  fisnan :: "'f \<Rightarrow> bool"
  fisinf :: "'f \<Rightarrow> bool"
  fof_int :: "int \<Rightarrow> 'f"
  M_PI :: "'f"
  MEPS :: "'f"

text \<open>Exact arithmetic on the reals: no value is NaN or infinite, \<open>MEPS = 1e-24\<close>.\<close>

definition real_ops :: "real fops" where
  "real_ops = \<lparr> fadd = (+), fsub = (-), fmul = (*), fdiv = (/), fneg = uminus,
     fsqrt = sqrt, fsin = sin, fcos = cos, facos = arccos,
     fcopysign = (\<lambda>x y. if y < 0 then - \<bar>x\<bar> else \<bar>x\<bar>),
     flt = (<), fisnan = (\<lambda>x. False), fisinf = (\<lambda>x. False),
     fof_int = of_int, M_PI = pi, MEPS = 1 / 10 ^ 24 \<rparr>"

section \<open>Vector primitives\<close>

text \<open>
  A C pointer into a buffer is a list together with an offset: \<open>V + i * k\<close> is the
  pair \<open>V\<close>, \<open>i * k\<close>.  The lists stand for the per-instance slices the launchers pass.
  The model describes the code on the inputs for which the C program stays inside its
  buffers; the theorems name the bounds they rely on.  The sizes \<open>n\<close>, \<open>m\<close>, \<open>k\<close>, the
  variable ids of the index and the entries of \<open>perm\<close> are C \<open>int\<close>s that index
  buffers: they are natural numbers here, a negative one would address memory before
  the buffer.  \<open>max_iter\<close> and \<open>niter\<close> are integers: a \<open>max_iter\<close> that is not positive
  is a legitimate argument.  No arithmetic on them comes near the 32-bit range.
\<close>

text \<open>\<open>_mm_dp_ps(x_, y_, 0xf1)\<close>: the four products, summed pairwise.\<close>

definition dp4 :: "'f fops \<Rightarrow> 'f list \<Rightarrow> nat \<Rightarrow> 'f list \<Rightarrow> nat \<Rightarrow> 'f" where
  "dp4 ops x xo y yo =
     fadd ops
       (fadd ops (fmul ops (x ! xo) (y ! yo)) (fmul ops (x ! (xo + 1)) (y ! (yo + 1))))
       (fadd ops (fmul ops (x ! (xo + 2)) (y ! (yo + 2))) (fmul ops (x ! (xo + 3)) (y ! (yo + 3))))"

text \<open>\<open>sdot\<close>: the loop \<open>for (i = 0; i < l; i += 4, x += 4, y += 4)\<close> with its running sum.\<close>

function sdot_loop :: "'f fops \<Rightarrow> 'f list \<Rightarrow> nat \<Rightarrow> 'f list \<Rightarrow> nat \<Rightarrow> nat \<Rightarrow> nat \<Rightarrow> 'f \<Rightarrow> 'f" where
  "sdot_loop ops x xo y yo l i s =
     (if i < l then sdot_loop ops x xo y yo l (i + 4) (fadd ops s (dp4 ops x (xo + i) y (yo + i)))
      else s)"
  by pat_completeness auto
termination
  by (relation "measure (\<lambda>(ops, x, xo, y, yo, l, i, s). l - i)") auto

declare sdot_loop.simps [simp del]

definition sdot :: "'f fops \<Rightarrow> 'f list \<Rightarrow> nat \<Rightarrow> 'f list \<Rightarrow> nat \<Rightarrow> nat \<Rightarrow> 'f" where
  "sdot ops x xo y yo l = sdot_loop ops x xo y yo l 0 (fof_int ops 0)"

text \<open>\<open>saxpy\<close>: \<open>y = a * x + y\<close>, four elements per step.\<close>

definition saxpy4 :: "'f fops \<Rightarrow> 'f \<Rightarrow> 'f list \<Rightarrow> nat \<Rightarrow> 'f list \<Rightarrow> nat \<Rightarrow> 'f list" where
  "saxpy4 ops a x xo y yo =
     y[yo := fadd ops (fmul ops a (x ! xo)) (y ! yo),
       yo + 1 := fadd ops (fmul ops a (x ! (xo + 1))) (y ! (yo + 1)),
       yo + 2 := fadd ops (fmul ops a (x ! (xo + 2))) (y ! (yo + 2)),
       yo + 3 := fadd ops (fmul ops a (x ! (xo + 3))) (y ! (yo + 3))]"

function saxpy_loop :: "'f fops \<Rightarrow> 'f \<Rightarrow> 'f list \<Rightarrow> nat \<Rightarrow> nat \<Rightarrow> nat \<Rightarrow> nat \<Rightarrow> 'f list \<Rightarrow> 'f list" where
  "saxpy_loop ops a x xo yo l i y =
     (if i < l then saxpy_loop ops a x xo yo l (i + 4) (saxpy4 ops a x (xo + i) y (yo + i))
      else y)"
  by pat_completeness auto
termination
  by (relation "measure (\<lambda>(ops, a, x, xo, yo, l, i, y). l - i)") auto

declare saxpy_loop.simps [simp del]

definition saxpy :: "'f fops \<Rightarrow> 'f list \<Rightarrow> nat \<Rightarrow> 'f \<Rightarrow> 'f list \<Rightarrow> nat \<Rightarrow> nat \<Rightarrow> 'f list" where
  "saxpy ops y yo a x xo l = saxpy_loop ops a x xo yo l 0 y"

text \<open>\<open>sscal\<close>: the loop unrolled five times over \<open>i < l - 4\<close>, then the clean-up loop.\<close>

function sscal_main :: "'f fops \<Rightarrow> 'f \<Rightarrow> nat \<Rightarrow> nat \<Rightarrow> nat \<Rightarrow> 'f list \<Rightarrow> nat \<times> 'f list" where
  "sscal_main ops a xo l i x =
     (if int i < int l - 4
      then sscal_main ops a xo l (i + 5)
             (x[xo + i := fmul ops (x ! (xo + i)) a,
                xo + i + 1 := fmul ops (x ! (xo + i + 1)) a,
                xo + i + 2 := fmul ops (x ! (xo + i + 2)) a,
                xo + i + 3 := fmul ops (x ! (xo + i + 3)) a,
                xo + i + 4 := fmul ops (x ! (xo + i + 4)) a])
      else (i, x))"
  by pat_completeness auto
termination
  by (relation "measure (\<lambda>(ops, a, xo, l, i, x). l - i)") auto

declare sscal_main.simps [simp del]

function sscal_rest :: "'f fops \<Rightarrow> 'f \<Rightarrow> nat \<Rightarrow> nat \<Rightarrow> nat \<Rightarrow> 'f list \<Rightarrow> 'f list" where
  "sscal_rest ops a xo l i x =
     (if i < l then sscal_rest ops a xo l (i + 1) (x[xo + i := fmul ops (x ! (xo + i)) a])
      else x)"
  by pat_completeness auto
termination
  by (relation "measure (\<lambda>(ops, a, xo, l, i, x). l - i)") auto

declare sscal_rest.simps [simp del]

definition sscal :: "'f fops \<Rightarrow> 'f list \<Rightarrow> nat \<Rightarrow> 'f \<Rightarrow> nat \<Rightarrow> 'f list" where
  "sscal ops x xo a l = (case sscal_main ops a xo l 0 x of (i, x') \<Rightarrow> sscal_rest ops a xo l i x')"

definition snrm2 :: "'f fops \<Rightarrow> 'f list \<Rightarrow> nat \<Rightarrow> nat \<Rightarrow> 'f" where
  "snrm2 ops x xo l = fsqrt ops (sdot ops x xo x xo l)"

text \<open>\<open>szero\<close>: \<open>memset\<close> of \<open>l\<close> floats; the all-zero bit pattern is the float \<open>0\<close>.\<close>

definition szero :: "'f fops \<Rightarrow> 'f list \<Rightarrow> nat \<Rightarrow> nat \<Rightarrow> 'f list" where
  "szero ops v vo l = fold (\<lambda>j v. v[vo + j := fof_int ops 0]) [0..<l] v"

text \<open>\<open>saturate\<close>: \<open>x - (x < 0) * x + (x > 1) * (1 - x)\<close>; a comparison is the integer 0 or 1.\<close>

definition saturate :: "'f fops \<Rightarrow> 'f \<Rightarrow> 'f" where
  "saturate ops x =
     fadd ops
       (fsub ops x (fmul ops (fof_int ops (if flt ops x (fof_int ops 0) then 1 else 0)) x))
       (fmul ops (fof_int ops (if flt ops (fof_int ops 1) x then 1 else 0))
          (fsub ops (fof_int ops 1) x))"

section \<open>Variable initializer\<close>

text \<open>
  \<open>mix_init\<close>, first loop: every row \<open>i = 0, ..., n - 1\<close> of \<open>V\<close> is rewritten, an input
  row to its canonical two-coordinate form, any other row scaled by \<open>1 / sqrtf(s)\<close>.
  \<open>is_input\<close> holds C truth values: anything but 0 is true.
\<close>

definition mix_init_row :: "'f fops \<Rightarrow> nat \<Rightarrow> int list \<Rightarrow> 'f list \<Rightarrow> nat \<Rightarrow> 'f list \<Rightarrow> 'f list" where
  "mix_init_row ops k is_input z i V =
     (if is_input ! i \<noteq> 0 then
        (let Vi1 = V ! (i * k + 1);
             V1 = szero ops V (i * k) k;
             V2 = V1[i * k := fneg ops (fcos ops (fmul ops (z ! i) (M_PI ops)))]
         in V2[i * k + 1 := fcopysign ops (fsin ops (fmul ops (z ! i) (M_PI ops))) Vi1])
      else
        (let s = sdot ops V (i * k) V (i * k) k;
             s' = fdiv ops (fof_int ops 1) (fsqrt ops s)
         in sscal ops V (i * k) s' k))"

text \<open>
  Second part: walk \<open>perm[0 .. n - 2]\<close>, append \<open>perm[i_] + 1\<close> when it is not an input,
  then pad the index with the sentinel 0 up to position \<open>n - 1\<close>.
\<close>

definition mix_init_index :: "nat list \<Rightarrow> nat \<Rightarrow> int list \<Rightarrow> nat list \<Rightarrow> nat list" where
  "mix_init_index perm n is_input index =
     (let (j, index1) =
            fold (\<lambda>ip (j, index).
                    let i = perm ! ip + 1
                    in if is_input ! i = 0 then (j + 1, index[j := i]) else (j, index))
              [0..<n - 1] (0, index)
      in fold (\<lambda>j index. index[j := 0]) [j..<n] index1)"

text \<open>\<open>mix_init\<close> returns the two buffers it writes: the index and \<open>V\<close>.\<close>

definition mix_init :: "'f fops \<Rightarrow> nat list \<Rightarrow> nat \<Rightarrow> nat \<Rightarrow> int list \<Rightarrow> nat list \<Rightarrow> 'f list \<Rightarrow> 'f list
    \<Rightarrow> nat list \<times> 'f list" where
  "mix_init ops perm n k is_input index z V =
     (mix_init_index perm n is_input index,
      fold (mix_init_row ops k is_input z) [0..<n] V)"

section \<open>Coordinate-update kernel\<close>

text \<open>
  The buffers \<open>mix_kernel\<close> writes, and the movement it returns.  In adjoint mode the
  caller passes \<open>U\<close> for \<open>V\<close> and \<open>Phi\<close> for \<open>W\<close>.
\<close>

record 'f kstate =
  k_delta :: "'f"
  k_V :: "'f list"
  k_W :: "'f list"
  k_gnrm :: "'f list"
  k_g :: "'f list"

text \<open>Lines 140-143: \<open>g[kk] = sdot(Si, W + kk * m, m)\<close>, then \<open>saxpy(g, -Sii, V + i * k, k)\<close>.\<close>

definition kernel_grad :: "'f fops \<Rightarrow> nat \<Rightarrow> nat \<Rightarrow> 'f list \<Rightarrow> 'f list \<Rightarrow> nat \<Rightarrow> 'f list \<Rightarrow> 'f list
    \<Rightarrow> 'f list \<Rightarrow> 'f list" where
  "kernel_grad ops m k S Snrms i V W g =
     (let Sii = Snrms ! i;
          g1 = fold (\<lambda>kk g. g[kk := sdot ops S (i * m) W (kk * m) m]) [0..<k] g
      in saxpy ops g1 0 (fneg ops Sii) V (i * k) k)"

text \<open>Lines 146-159: the divisor \<open>gnrmi\<close> and the unscaled new row, in either mode.\<close>

definition kernel_dir :: "'f fops \<Rightarrow> bool \<Rightarrow> 'f \<Rightarrow> nat \<Rightarrow> 'f list \<Rightarrow> 'f list \<Rightarrow> 'f list \<Rightarrow> nat
    \<Rightarrow> 'f list \<Rightarrow> 'f \<times> 'f list" where
  "kernel_dir ops is_forward prox_lam k dz Vproj gnrm i g =
     (if is_forward then
        (snrm2 ops g 0 k, sscal ops g 0 (fof_int ops (- 1)) k)
      else
        (let gnrmi = fadd ops (gnrm ! i) prox_lam;
             c = fadd ops (sdot ops Vproj (i * k) g 0 k) (fmul ops (dz ! i) (Vproj ! (i * k)));
             g1 = sscal ops g 0 (fof_int ops (- 1)) k;
             g2 = saxpy ops g1 0 c Vproj (i * k) k
         in (gnrmi, g2[0 := fsub ops (g2 ! 0) (dz ! i)])))"

text \<open>Lines 166-167: \<open>t = g[kk], g[kk] -= V[i * k + kk], V[i * k + kk] = t\<close>.\<close>

definition kernel_swap :: "'f fops \<Rightarrow> nat \<Rightarrow> nat \<Rightarrow> 'f list \<times> 'f list \<Rightarrow> 'f list \<times> 'f list" where
  "kernel_swap ops k i gV =
     fold (\<lambda>kk (g, V). (g[kk := fsub ops (g ! kk) (V ! (i * k + kk))], V[i * k + kk := g ! kk]))
       [0..<k] gV"

text \<open>Lines 169-170: \<open>saxpy(W + kk * m, g[kk], Si, m)\<close> for every \<open>kk\<close>.\<close>

definition kernel_accum :: "'f fops \<Rightarrow> nat \<Rightarrow> nat \<Rightarrow> 'f list \<Rightarrow> nat \<Rightarrow> 'f list \<Rightarrow> 'f list \<Rightarrow> 'f list" where
  "kernel_accum ops m k S i g W =
     fold (\<lambda>kk W. saxpy ops W (kk * m) (g ! kk) S (i * m) m) [0..<k] W"

text \<open>The body of the sweep for one variable id \<open>i\<close>.\<close>

definition mix_kernel_body :: "'f fops \<Rightarrow> bool \<Rightarrow> 'f \<Rightarrow> nat \<Rightarrow> nat \<Rightarrow> 'f list \<Rightarrow> 'f list \<Rightarrow> 'f list
    \<Rightarrow> 'f list \<Rightarrow> nat \<Rightarrow> 'f kstate \<Rightarrow> 'f kstate" where
  "mix_kernel_body ops is_forward prox_lam m k S dz Vproj Snrms i st =
     (let g0 = kernel_grad ops m k S Snrms i (k_V st) (k_W st) (k_g st);
          (gnrmi, g1) = kernel_dir ops is_forward prox_lam k dz Vproj (k_gnrm st) i g0;
          g2 = sscal ops g1 0 (fdiv ops (fof_int ops 1) gnrmi) k;
          (g3, V') = kernel_swap ops k i (g2, k_V st);
          W' = kernel_accum ops m k S i g3 (k_W st)
      in if is_forward then
           \<lparr> k_delta = fadd ops (k_delta st) (fmul ops gnrmi (sdot ops g3 0 g3 0 k)),
             k_V = V', k_W = W', k_gnrm = (k_gnrm st)[i := gnrmi], k_g = g3 \<rparr>
         else
           \<lparr> k_delta = k_delta st, k_V = V', k_W = W', k_gnrm = k_gnrm st, k_g = g3 \<rparr>)"

text \<open>
  The sweep \<open>for (int i, i_ = 0; (i = index[i_]); i_++)\<close>: it runs down the index and
  stops at the first 0.  An index without a 0 would take the C loop past the buffer;
  \<open>mix_init\<close> always writes one, and here the walk stops at the end of the list.
\<close>

fun mix_kernel_loop :: "'f fops \<Rightarrow> bool \<Rightarrow> 'f \<Rightarrow> nat \<Rightarrow> nat \<Rightarrow> 'f list \<Rightarrow> 'f list \<Rightarrow> 'f list
    \<Rightarrow> 'f list \<Rightarrow> nat list \<Rightarrow> 'f kstate \<Rightarrow> 'f kstate" where
  "mix_kernel_loop ops is_forward prox_lam m k S dz Vproj Snrms [] st = st"
| "mix_kernel_loop ops is_forward prox_lam m k S dz Vproj Snrms (i # rest) st =
     (if i = 0 then st
      else mix_kernel_loop ops is_forward prox_lam m k S dz Vproj Snrms rest
             (mix_kernel_body ops is_forward prox_lam m k S dz Vproj Snrms i st))"

definition mix_kernel :: "'f fops \<Rightarrow> bool \<Rightarrow> 'f \<Rightarrow> nat \<Rightarrow> nat \<Rightarrow> nat list \<Rightarrow> 'f list \<Rightarrow> 'f list
    \<Rightarrow> 'f list \<Rightarrow> 'f list \<Rightarrow> 'f list \<Rightarrow> 'f list \<Rightarrow> 'f list \<Rightarrow> 'f list \<Rightarrow> 'f kstate" where
  "mix_kernel ops is_forward prox_lam m k index S dz V Vproj W gnrm Snrms g =
     mix_kernel_loop ops is_forward prox_lam m k S dz Vproj Snrms index
       \<lparr> k_delta = fof_int ops 0, k_V = V, k_W = W, k_gnrm = gnrm, k_g = g \<rparr>"

text \<open>The ids a sweep visits: the entries of the index before the sentinel.\<close>

definition visited :: "nat list \<Rightarrow> nat list" where
  "visited index = takeWhile (\<lambda>i. i \<noteq> 0) index"

section \<open>Forward solver\<close>

text \<open>
  The loop of \<open>mix_forward\<close> (lines 192-199).  \<open>calls\<close> is a ghost counter: it is not in
  the C code and counts the invocations of \<open>mix_kernel\<close>.  The forward call passes
  \<open>NULL\<close> for \<open>dz\<close> and \<open>Vproj\<close>, which forward mode never reads: the empty list here.
  The result is \<open>iter\<close> at loop exit, the counter and the four buffers written.
\<close>

function mix_forward_loop :: "'f fops \<Rightarrow> int \<Rightarrow> nat \<Rightarrow> nat \<Rightarrow> nat list \<Rightarrow> 'f list \<Rightarrow> 'f list
    \<Rightarrow> int \<Rightarrow> 'f \<Rightarrow> nat \<Rightarrow> 'f list \<Rightarrow> 'f list \<Rightarrow> 'f list \<Rightarrow> 'f list
    \<Rightarrow> int \<times> nat \<times> 'f list \<times> 'f list \<times> 'f list \<times> 'f list" where
  "mix_forward_loop ops max_iter m k index S Snrms iter eps calls V W gnrm cache =
     (if iter < max_iter then
        (let st = mix_kernel ops True (fof_int ops 0) m k index S [] V [] W gnrm Snrms cache;
             delta = k_delta st
         in if iter \<noteq> 0 \<and> flt ops delta eps
            then (iter, calls + 1, k_V st, k_W st, k_gnrm st, k_g st)
            else mix_forward_loop ops max_iter m k index S Snrms (iter + 1)
                   (if iter = 0 then fmul ops delta eps else eps) (calls + 1)
                   (k_V st) (k_W st) (k_gnrm st) (k_g st))
      else (iter, calls, V, W, gnrm, cache))"
  by pat_completeness auto
termination
  by (relation "measure (\<lambda>(ops, max_iter, m, k, index, S, Snrms, iter, eps, calls, V, W, gnrm, cache).
        nat (max_iter - iter))") auto

declare mix_forward_loop.simps [simp del]

text \<open>Lines 207-209: the decoded value of a first coordinate.\<close>

definition decode :: "'f fops \<Rightarrow> 'f \<Rightarrow> 'f" where
  "decode ops v0 =
     (let zi = fsub ops
                 (fmul ops (saturate ops (fdiv ops (fadd ops v0 (fof_int ops 1)) (fof_int ops 2)))
                    (fof_int ops 2))
                 (fof_int ops 1)
      in saturate ops (fsub ops (fof_int ops 1) (fdiv ops (facos ops zi) (M_PI ops))))"

text \<open>Lines 206-211: the decoding loop, again down the index to the sentinel.\<close>

fun mix_forward_decode :: "'f fops \<Rightarrow> nat \<Rightarrow> 'f list \<Rightarrow> nat list \<Rightarrow> 'f list \<Rightarrow> 'f list" where
  "mix_forward_decode ops k V [] z = z"
| "mix_forward_decode ops k V (i # rest) z =
     (if i = 0 then z else mix_forward_decode ops k V rest (z[i := decode ops (V ! (i * k))]))"

record 'f fwd_result =
  f_niter :: int
  f_calls :: nat
  f_z :: "'f list"
  f_V :: "'f list"
  f_W :: "'f list"
  f_gnrm :: "'f list"
  f_cache :: "'f list"

definition mix_forward :: "'f fops \<Rightarrow> int \<Rightarrow> 'f \<Rightarrow> nat \<Rightarrow> nat \<Rightarrow> nat \<Rightarrow> nat list \<Rightarrow> 'f list \<Rightarrow> 'f list
    \<Rightarrow> 'f list \<Rightarrow> 'f list \<Rightarrow> 'f list \<Rightarrow> 'f list \<Rightarrow> 'f list \<Rightarrow> 'f fwd_result" where
  "mix_forward ops max_iter eps n m k index S z V W gnrm Snrms cache =
     (case mix_forward_loop ops max_iter m k index S Snrms 0 eps 0 V W gnrm cache of
        (iter, calls, V', W', gnrm', cache') \<Rightarrow>
          \<lparr> f_niter = iter, f_calls = calls, f_z = mix_forward_decode ops k V' index z,
            f_V = V', f_W = W', f_gnrm = gnrm', f_cache = cache' \<rparr>)"

section \<open>Backward solver\<close>

text \<open>
  Lines 221-227: the rescaling loop.  It carries \<open>invalid_flag\<close> and the \<open>dz\<close> it
  rewrites; the value \<open>dzi\<close> is stored whether or not the flag is raised.
\<close>

fun mix_backward_rescale :: "'f fops \<Rightarrow> 'f list \<Rightarrow> 'f list \<Rightarrow> nat list \<Rightarrow> bool \<times> 'f list
    \<Rightarrow> bool \<times> 'f list" where
  "mix_backward_rescale ops z gnrm [] fd = fd"
| "mix_backward_rescale ops z gnrm (i # rest) fd =
     (if i = 0 then fd
      else (case fd of (invalid_flag, dz) \<Rightarrow>
        (let zi = z ! i;
             dzi = fdiv ops (fdiv ops (dz ! i) (M_PI ops)) (fsin ops (fmul ops zi (M_PI ops)))
         in mix_backward_rescale ops z gnrm rest
              (invalid_flag \<or> fisnan ops dzi \<or> fisinf ops dzi \<or> flt ops (gnrm ! i) (MEPS ops),
               dz[i := dzi]))))"

text \<open>
  Lines 234-236: \<open>*niter\<close> adjoint sweeps; the kernel gets \<open>U\<close> as its \<open>V\<close>, the forward
  \<open>V\<close> as \<open>Vproj\<close> and \<open>Phi\<close> as its \<open>W\<close>.  \<open>calls\<close> is the ghost counter of kernel calls.
\<close>

function mix_backward_loop :: "'f fops \<Rightarrow> 'f \<Rightarrow> nat \<Rightarrow> nat \<Rightarrow> nat list \<Rightarrow> 'f list \<Rightarrow> 'f list
    \<Rightarrow> 'f list \<Rightarrow> 'f list \<Rightarrow> int \<Rightarrow> int \<Rightarrow> nat \<Rightarrow> 'f list \<Rightarrow> 'f list \<Rightarrow> 'f list \<Rightarrow> 'f list
    \<Rightarrow> nat \<times> 'f list \<times> 'f list \<times> 'f list \<times> 'f list" where
  "mix_backward_loop ops prox_lam m k index S dz V Snrms niter iter calls U Phi gnrm cache =
     (if iter < niter then
        (let st = mix_kernel ops False prox_lam m k index S dz U V Phi gnrm Snrms cache
         in mix_backward_loop ops prox_lam m k index S dz V Snrms niter (iter + 1) (calls + 1)
              (k_V st) (k_W st) (k_gnrm st) (k_g st))
      else (calls, U, Phi, gnrm, cache))"
  by pat_completeness auto
termination
  by (relation "measure (\<lambda>(ops, prox_lam, m, k, index, S, dz, V, Snrms, niter, iter, calls, U, Phi,
        gnrm, cache). nat (niter - iter))") auto

declare mix_backward_loop.simps [simp del]

text \<open>Lines 239-242: the sanity check over the \<open>n * k\<close> entries of \<open>U\<close>.\<close>

definition mix_backward_sanity :: "'f fops \<Rightarrow> nat \<Rightarrow> nat \<Rightarrow> 'f list \<Rightarrow> bool" where
  "mix_backward_sanity ops n k U =
     fold (\<lambda>ik invalid_flag. invalid_flag \<or> fisnan ops (U ! ik) \<or> fisinf ops (U ! ik))
       [0..<n * k] False"

text \<open>Lines 250-255: \<open>dS\<close> accumulates \<open>U W + V Phi\<close>.\<close>

definition mix_backward_dS :: "'f fops \<Rightarrow> nat \<Rightarrow> nat \<Rightarrow> nat \<Rightarrow> 'f list \<Rightarrow> 'f list \<Rightarrow> 'f list \<Rightarrow> 'f list
    \<Rightarrow> 'f list \<Rightarrow> 'f list" where
  "mix_backward_dS ops n m k U V W Phi dS =
     fold (\<lambda>i dS.
            fold (\<lambda>kk dS.
                   saxpy ops (saxpy ops dS (i * m) (U ! (i * k + kk)) W (kk * m) m)
                     (i * m) (V ! (i * k + kk)) Phi (kk * m) m)
              [0..<k] dS)
       [0..<n] dS"

text \<open>Lines 257-266: the gradient on the inputs, for \<open>i = 1, ..., n - 1\<close>.\<close>

definition mix_backward_dz :: "'f fops \<Rightarrow> nat \<Rightarrow> nat \<Rightarrow> nat \<Rightarrow> int list \<Rightarrow> 'f list \<Rightarrow> 'f list \<Rightarrow> 'f list
    \<Rightarrow> 'f list \<Rightarrow> 'f list \<Rightarrow> 'f list" where
  "mix_backward_dz ops n m k is_input S z V Phi dz =
     fold (\<lambda>i dz.
            if is_input ! i = 0 then dz[i := fof_int ops 0]
            else
              (let val1 = sdot ops S (i * m) Phi (0 * m) m;
                   val2 = sdot ops S (i * m) Phi (1 * m) m
               in dz[i := fadd ops
                     (fmul ops
                        (fmul ops (fadd ops (dz ! i) val1) (fsin ops (fmul ops (z ! i) (M_PI ops))))
                        (M_PI ops))
                     (fmul ops
                        (fmul ops val2
                           (fcopysign ops (fmul ops (fcos ops (fmul ops (z ! i) (M_PI ops))) (M_PI ops))
                              (V ! (i * k + 1))))
                        (M_PI ops))]))
       [1..<n] dz"

text \<open>
  \<open>mix_backward\<close> returns the buffers it may write and the ghost count of kernel calls.
  Both early returns do \<open>szero(dz, n)\<close> and nothing else.
\<close>

record 'f bwd_result =
  b_calls :: nat
  b_dz :: "'f list"
  b_dS :: "'f list"
  b_U :: "'f list"
  b_Phi :: "'f list"
  b_gnrm :: "'f list"
  b_cache :: "'f list"

definition mix_backward :: "'f fops \<Rightarrow> 'f \<Rightarrow> nat \<Rightarrow> nat \<Rightarrow> nat \<Rightarrow> int list \<Rightarrow> nat list \<Rightarrow> int
    \<Rightarrow> 'f list \<Rightarrow> 'f list \<Rightarrow> 'f list \<Rightarrow> 'f list \<Rightarrow> 'f list \<Rightarrow> 'f list \<Rightarrow> 'f list \<Rightarrow> 'f list
    \<Rightarrow> 'f list \<Rightarrow> 'f list \<Rightarrow> 'f list \<Rightarrow> 'f bwd_result" where
  "mix_backward ops prox_lam n m k is_input index niter S dS z dz V U W Phi gnrm Snrms cache =
     (case mix_backward_rescale ops z gnrm index (False, dz) of (invalid_flag, dz1) \<Rightarrow>
        if invalid_flag then
          \<lparr> b_calls = 0, b_dz = szero ops dz1 0 n, b_dS = dS, b_U = U, b_Phi = Phi,
            b_gnrm = gnrm, b_cache = cache \<rparr>
        else
          (case mix_backward_loop ops prox_lam m k index S dz1 V Snrms niter 0 0 U Phi gnrm cache of
             (calls, U', Phi', gnrm', cache') \<Rightarrow>
               if mix_backward_sanity ops n k U' then
                 \<lparr> b_calls = calls, b_dz = szero ops dz1 0 n, b_dS = dS, b_U = U', b_Phi = Phi',
                   b_gnrm = gnrm', b_cache = cache' \<rparr>
               else
                 \<lparr> b_calls = calls,
                   b_dz = mix_backward_dz ops n m k is_input S z V Phi' dz1,
                   b_dS = mix_backward_dS ops n m k U' V W Phi' dS,
                   b_U = U', b_Phi = Phi', b_gnrm = gnrm', b_cache = cache' \<rparr>))"

section \<open>The stopping rule in the words of the specification\<close>

text \<open>
  One forward sweep from given buffers, the buffers it leaves, and the sweep number
  \<open>j\<close> (counted from 0) of a run of uninterrupted sweeps.  \<open>movement\<close> is the value
  that sweep returns.
\<close>

type_synonym 'f bufs = "'f list \<times> 'f list \<times> 'f list \<times> 'f list"

definition forward_sweep :: "'f fops \<Rightarrow> nat \<Rightarrow> nat \<Rightarrow> nat list \<Rightarrow> 'f list \<Rightarrow> 'f list \<Rightarrow> 'f bufs
    \<Rightarrow> 'f kstate" where
  "forward_sweep ops m k index S Snrms b =
     (case b of (V, W, gnrm, cache) \<Rightarrow>
        mix_kernel ops True (fof_int ops 0) m k index S [] V [] W gnrm Snrms cache)"

definition kbufs :: "'f kstate \<Rightarrow> 'f bufs" where
  "kbufs st = (k_V st, k_W st, k_gnrm st, k_g st)"

primrec forward_sweeps :: "'f fops \<Rightarrow> nat \<Rightarrow> nat \<Rightarrow> nat list \<Rightarrow> 'f list \<Rightarrow> 'f list \<Rightarrow> nat \<Rightarrow> 'f bufs
    \<Rightarrow> 'f kstate" where
  "forward_sweeps ops m k index S Snrms 0 b = forward_sweep ops m k index S Snrms b"
| "forward_sweeps ops m k index S Snrms (Suc j) b =
     forward_sweeps ops m k index S Snrms j (kbufs (forward_sweep ops m k index S Snrms b))"

definition movement :: "'f fops \<Rightarrow> nat \<Rightarrow> nat \<Rightarrow> nat list \<Rightarrow> 'f list \<Rightarrow> 'f list \<Rightarrow> 'f bufs \<Rightarrow> nat \<Rightarrow> 'f" where
  "movement ops m k index S Snrms b j = k_delta (forward_sweeps ops m k index S Snrms j b)"

text \<open>
  The rule as the specification words it, over the movements \<open>d 0, d 1, ...\<close>: the
  tolerance is \<open>d 0 * eps\<close>; sweep 0 is never tested; the count is the first
  \<open>j \<ge> 1\<close> below \<open>max_iter\<close> whose movement is below the tolerance, and \<open>max_iter\<close>
  when there is none.
\<close>

definition stopping_rule :: "'f fops \<Rightarrow> int \<Rightarrow> 'f \<Rightarrow> (nat \<Rightarrow> 'f) \<Rightarrow> int" where
  "stopping_rule ops max_iter eps d =
     (if max_iter \<le> 0 then 0
      else (case find (\<lambda>j. flt ops (d j) (fmul ops (d 0) eps)) [1..<nat max_iter] of
              Some j \<Rightarrow> int j
            | None \<Rightarrow> max_iter))"

section \<open>A small instance\<close>

text \<open>
  Two variables (\<open>n = 2\<close>), \<open>k = 4\<close>, \<open>m = 4\<close>; variable 1 is free, the index is
  \<open>[1, 0]\<close>.  Both rows of \<open>S\<close> are \<open>(1, 0, 0, 0)\<close>, so \<open>Snrms = [1, 1]\<close>.
  \<open>ex_W\<close> is the accumulator of \<open>ex_V\<close> and \<open>ex_W0\<close> that of \<open>ex_V1\<close>.  Every number
  that occurs in a sweep from these buffers is a small integer, so the float sweep and
  the exact one agree on them.
\<close>

definition ex_index :: "nat list" where
  "ex_index = [1, 0]"

definition ex_S :: "real list" where
  "ex_S = [1, 0, 0, 0,  1, 0, 0, 0]"

definition ex_V :: "real list" where
  "ex_V = [1, 0, 0, 0,  0, 1, 0, 0]"

definition ex_W :: "real list" where
  "ex_W = [1, 0, 0, 0,  1, 0, 0, 0,  0, 0, 0, 0,  0, 0, 0, 0]"

definition ex_V1 :: "real list" where
  "ex_V1 = [1, 0, 0, 0,  - 1, 0, 0, 0]"

definition ex_W0 :: "real list" where
  "ex_W0 = [0, 0, 0, 0,  0, 0, 0, 0,  0, 0, 0, 0,  0, 0, 0, 0]"

definition ex_dS :: "real list" where
  "ex_dS = [5, 5, 5, 5,  5, 5, 5, 5]"

definition ex_U :: "real list" where
  "ex_U = [0, 0, 0, 0,  0, 0, 0, 0]"

section \<open>The accumulator relation and the kernel's buffers\<close>

text \<open>
  The relation the specification states for the accumulator, over exact numbers:
  \<open>W[kk][j]\<close> is the sum over all \<open>n\<close> variables of \<open>V[i][kk] * S[i][j]\<close>.
\<close>

definition acc_rel :: "nat \<Rightarrow> nat \<Rightarrow> nat \<Rightarrow> real list \<Rightarrow> real list \<Rightarrow> real list \<Rightarrow> bool" where
  "acc_rel n m k S V W \<longleftrightarrow>
     (\<forall>kk \<in> set [0..<k]. \<forall>j \<in> set [0..<m].
        W ! (kk * m + j) = sum_list (map (\<lambda>i. V ! (i * k + kk) * S ! (i * m + j)) [0..<n]))"

text \<open>
  The inputs on which \<open>mix_kernel\<close> stays inside its buffers, for \<open>n\<close> variables: the
  SIMD loops need \<open>m\<close> and \<open>k\<close> to be multiples of 4, the index holds the sentinel and
  ids below \<open>n\<close>, and every buffer has the size its strides imply.  \<open>dz\<close> and \<open>Vproj\<close>
  are read in adjoint mode only.
\<close>

definition kernel_wf :: "bool \<Rightarrow> nat \<Rightarrow> nat \<Rightarrow> nat \<Rightarrow> nat list \<Rightarrow> 'f list \<Rightarrow> 'f list \<Rightarrow> 'f list
    \<Rightarrow> 'f list \<Rightarrow> 'f list \<Rightarrow> 'f list \<Rightarrow> 'f list \<Rightarrow> 'f list \<Rightarrow> bool" where
  "kernel_wf is_forward n m k index S dz V Vproj W gnrm Snrms g \<longleftrightarrow>
     4 dvd m \<and> 4 dvd k \<and> 0 \<in> set index \<and> (\<forall>i \<in> set (visited index). i < n) \<and>
     length S = n * m \<and> length V = n * k \<and> length W = k * m \<and>
     length gnrm = n \<and> length Snrms = n \<and> length g = k \<and>
     (is_forward \<or> (length dz = n \<and> length Vproj = n * k))"

section \<open>An arithmetic with a non-finite value\<close>

text \<open>
  A second instance of the operations, on \<open>real option\<close>: \<open>Some x\<close> is the number \<open>x\<close>
  and \<open>None\<close> is the one non-finite value, which stands for NaN and for the infinities.
  It follows the IEEE rules that matter when a NaN arises: a division by zero is not a
  number, every operation on \<open>None\<close> gives \<open>None\<close> (so zero times the result of \<open>1 / 0\<close>
  is NaN, as in C), the square root of a negative number and the arc cosine outside
  \<open>[-1, 1]\<close> are \<open>None\<close>, and every comparison with \<open>None\<close> is false.  The code tests
  \<open>isnan\<close> and \<open>isinf\<close> only together, so \<open>None\<close> answers to \<open>isnan\<close>.  Rounding is not
  modelled: on numbers the operations are exact.
\<close>

fun nan_lift2 :: "(real \<Rightarrow> real \<Rightarrow> real) \<Rightarrow> real option \<Rightarrow> real option \<Rightarrow> real option" where
  "nan_lift2 f (Some x) (Some y) = Some (f x y)"
| "nan_lift2 f _ _ = None"

fun nan_div :: "real option \<Rightarrow> real option \<Rightarrow> real option" where
  "nan_div (Some x) (Some y) = (if y = 0 then None else Some (x / y))"
| "nan_div _ _ = None"

fun nan_sqrt :: "real option \<Rightarrow> real option" where
  "nan_sqrt (Some x) = (if x < 0 then None else Some (sqrt x))"
| "nan_sqrt None = None"

fun nan_acos :: "real option \<Rightarrow> real option" where
  "nan_acos (Some x) = (if - 1 \<le> x \<and> x \<le> 1 then Some (arccos x) else None)"
| "nan_acos None = None"

fun nan_lt :: "real option \<Rightarrow> real option \<Rightarrow> bool" where
  "nan_lt (Some x) (Some y) = (x < y)"
| "nan_lt _ _ = False"

definition nan_ops :: "real option fops" where
  "nan_ops = \<lparr> fadd = nan_lift2 (+), fsub = nan_lift2 (-), fmul = nan_lift2 (*), fdiv = nan_div,
     fneg = map_option uminus, fsqrt = nan_sqrt, fsin = map_option sin, fcos = map_option cos,
     facos = nan_acos,
     fcopysign = nan_lift2 (\<lambda>x y. if y < 0 then - \<bar>x\<bar> else \<bar>x\<bar>),
     flt = nan_lt, fisnan = (\<lambda>x. x = None), fisinf = (\<lambda>x. False),
     fof_int = (\<lambda>i. Some (of_int i)), M_PI = Some pi, MEPS = Some (1 / 10 ^ 24) \<rparr>"

text \<open>
  The small instance again, with a variable that occurs in no constraint: row 1 of \<open>S\<close>
  is zero, and so is its squared norm \<open>Snrms[1]\<close>.  \<open>zw_W\<close> is the accumulator of \<open>zw_V\<close>.
\<close>

definition zw_S :: "real option list" where
  "zw_S = map Some [1, 0, 0, 0,  0, 0, 0, 0]"

definition zw_V :: "real option list" where
  "zw_V = map Some [1, 0, 0, 0,  0, 1, 0, 0]"

definition zw_W :: "real option list" where
  "zw_W = map Some [1, 0, 0, 0,  0, 0, 0, 0,  0, 0, 0, 0,  0, 0, 0, 0]"

definition zw_Snrms :: "real option list" where
  "zw_Snrms = map Some [1, 0]"

definition zw_z :: "real option list" where
  "zw_z = map Some [1, 1 / 2]"

definition zw_gnrm :: "real option list" where
  "zw_gnrm = map Some [0, 0]"

definition zw_cache :: "real option list" where
  "zw_cache = map Some [0, 0, 0, 0]"

section \<open>Lemmas on the forward loop\<close>

lemma find_map_list: "find P (map f xs) = map_option f (find (\<lambda>x. P (f x)) xs)"
  by (induction xs) auto

lemma find_upt_Suc:
  "find P [0..<Suc n] = (if P 0 then Some 0 else map_option Suc (find (\<lambda>j. P (Suc j)) [0..<n]))"
proof -
  have "[0..<Suc n] = 0 # map Suc [0..<n]"
    by (simp add: upt_conv_Cons map_Suc_upt del: upt_Suc)
  then show ?thesis
    by (simp add: find_map_list del: upt_Suc)
qed

lemma find_upt_shift:
  "find P [Suc a..<Suc b] = map_option Suc (find (\<lambda>j. P (Suc j)) [a..<b])"
proof -
  have "[Suc a..<Suc b] = map Suc [a..<b]"
    by (simp add: map_Suc_upt)
  then show ?thesis
    by (simp add: find_map_list del: upt_Suc)
qed

lemma forward_loop_later:
  "1 \<le> iter \<Longrightarrow> nat (max_iter - iter) = n \<Longrightarrow>
   fst (mix_forward_loop ops max_iter m k index S Snrms iter tol c V W gnrm cache) =
     (case find (\<lambda>j. flt ops (movement ops m k index S Snrms (V, W, gnrm, cache) j) tol) [0..<n] of
        Some j \<Rightarrow> iter + int j
      | None \<Rightarrow> max iter max_iter)"
proof (induction n arbitrary: iter c V W gnrm cache)
  case 0
  then show ?case
    by (subst mix_forward_loop.simps) simp
next
  case (Suc n)
  let ?st = "forward_sweep ops m k index S Snrms (V, W, gnrm, cache)"
  have lt: "iter < max_iter" using Suc.prems by linarith
  have m0: "movement ops m k index S Snrms (V, W, gnrm, cache) 0 = k_delta ?st"
    by (simp add: movement_def)
  have mS: "\<And>j. movement ops m k index S Snrms (V, W, gnrm, cache) (Suc j) =
      movement ops m k index S Snrms (k_V ?st, k_W ?st, k_gnrm ?st, k_g ?st) j"
    by (simp add: movement_def kbufs_def)
  show ?case
  proof (cases "flt ops (k_delta ?st) tol")
    case True
    with lt Suc.prems show ?thesis
      by (subst mix_forward_loop.simps) (simp add: find_upt_Suc m0 forward_sweep_def Let_def del: upt_Suc)
  next
    case False
    have n: "nat (max_iter - (iter + 1)) = n" using Suc.prems by linarith
    have ih: "fst (mix_forward_loop ops max_iter m k index S Snrms (iter + 1) tol (c + 1)
         (k_V ?st) (k_W ?st) (k_gnrm ?st) (k_g ?st)) =
       (case find (\<lambda>j. flt ops (movement ops m k index S Snrms (k_V ?st, k_W ?st, k_gnrm ?st, k_g ?st) j) tol) [0..<n] of
          Some j \<Rightarrow> iter + 1 + int j | None \<Rightarrow> max (iter + 1) max_iter)"
      using Suc.IH [of "iter + 1", OF _ n] Suc.prems by simp
    have unf: "mix_forward_loop ops max_iter m k index S Snrms iter tol c V W gnrm cache =
        mix_forward_loop ops max_iter m k index S Snrms (iter + 1) tol (c + 1)
         (k_V ?st) (k_W ?st) (k_gnrm ?st) (k_g ?st)"
      using lt False Suc.prems
      by (subst mix_forward_loop.simps) (simp add: forward_sweep_def Let_def)
    show ?thesis
      unfolding unf ih using lt False
      by (simp add: find_upt_Suc m0 mS split: option.splits del: upt_Suc)
  qed
qed

lemma forward_loop_calls:
  "nat (max_iter - iter) = n \<Longrightarrow>
   mix_forward_loop ops max_iter m k index S Snrms iter eps c V W gnrm cache = r \<Longrightarrow>
   iter \<le> fst r \<and>
   fst (snd r) = c + nat (fst r - iter) + (if fst r < max_iter then 1 else 0)"
proof (induction n arbitrary: iter eps c V W gnrm cache r)
  case 0
  then have "\<not> iter < max_iter" by linarith
  with 0 show ?case
    by (subst (asm) mix_forward_loop.simps) auto
next
  case (Suc n)
  let ?st = "mix_kernel ops True (fof_int ops 0) m k index S [] V [] W gnrm Snrms cache"
  have lt: "iter < max_iter" using Suc.prems by linarith
  show ?case
  proof (cases "iter \<noteq> 0 \<and> flt ops (k_delta ?st) eps")
    case True
    with lt Suc.prems(2) show ?thesis
      by (subst (asm) mix_forward_loop.simps) (auto simp: Let_def)
  next
    case False
    have n: "nat (max_iter - (iter + 1)) = n" using Suc.prems by linarith
    have step: "mix_forward_loop ops max_iter m k index S Snrms iter eps c V W gnrm cache =
        mix_forward_loop ops max_iter m k index S Snrms (iter + 1)
        (if iter = 0 then fmul ops (k_delta ?st) eps else eps) (c + 1)
         (k_V ?st) (k_W ?st) (k_gnrm ?st) (k_g ?st)"
      using lt False
      by (subst mix_forward_loop.simps) (auto simp: Let_def)
    have unf: "mix_forward_loop ops max_iter m k index S Snrms (iter + 1)
        (if iter = 0 then fmul ops (k_delta ?st) eps else eps) (c + 1)
         (k_V ?st) (k_W ?st) (k_gnrm ?st) (k_g ?st) = r"
      using step Suc.prems(2) by simp
    from Suc.IH [OF n unf] show ?thesis
      by (auto simp: nat_diff_distrib split: if_splits)
  qed
qed

lemma forward_loop_first:
  "0 < max_iter \<Longrightarrow>
   mix_forward_loop ops max_iter m k index S Snrms 0 eps 0 V W gnrm cache =
     (let st = forward_sweep ops m k index S Snrms (V, W, gnrm, cache)
      in mix_forward_loop ops max_iter m k index S Snrms 1 (fmul ops (k_delta st) eps) 1
           (k_V st) (k_W st) (k_gnrm st) (k_g st))"
  by (subst mix_forward_loop.simps) (simp add: forward_sweep_def Let_def)

lemma forward_niter_stopping_rule:
  "fst (mix_forward_loop ops max_iter m k index S Snrms 0 eps 0 V W gnrm cache) =
     stopping_rule ops max_iter eps (movement ops m k index S Snrms (V, W, gnrm, cache))"
proof (cases "0 < max_iter")
  case False
  then show ?thesis
    by (subst mix_forward_loop.simps) (simp add: stopping_rule_def)
next
  case True
  let ?st = "forward_sweep ops m k index S Snrms (V, W, gnrm, cache)"
  let ?d = "movement ops m k index S Snrms (V, W, gnrm, cache)"
  obtain n where n: "nat max_iter = Suc n" using True by (cases "nat max_iter") auto
  then have n': "nat (max_iter - 1) = n" by linarith
  have m0: "?d 0 = k_delta ?st"
    by (simp add: movement_def)
  have mS: "\<And>j. ?d (Suc j) = movement ops m k index S Snrms (k_V ?st, k_W ?st, k_gnrm ?st, k_g ?st) j"
    by (simp add: movement_def kbufs_def)
  have mx: "max 1 max_iter = max_iter" using True by simp
  have "[1..<nat max_iter] = [Suc 0..<Suc n]" using n by simp
  then have rhs: "find (\<lambda>j. flt ops (?d j) (fmul ops (?d 0) eps)) [1..<nat max_iter] =
      map_option Suc (find (\<lambda>j. flt ops (?d (Suc j)) (fmul ops (?d 0) eps)) [0..<n])"
    by (simp only: find_upt_shift)
  have lhs: "fst (mix_forward_loop ops max_iter m k index S Snrms 0 eps 0 V W gnrm cache) =
      (case find (\<lambda>j. flt ops (?d (Suc j)) (fmul ops (?d 0) eps)) [0..<n] of
         Some j \<Rightarrow> 1 + int j | None \<Rightarrow> max_iter)"
    using True
    by (simp add: forward_loop_first Let_def forward_loop_later [OF _ n'] m0 mS mx del: upt_Suc)
  show ?thesis
    unfolding lhs stopping_rule_def rhs using True
    by (simp split: option.splits del: upt_Suc)
qed

subsection \<open>Frames of the loops over buffers\<close>

lemma fold_nth_frame:
  "(\<And>x s. x \<in> set xs \<Longrightarrow> f x s ! j = s ! j) \<Longrightarrow> fold f xs s ! j = s ! j"
  by (induction xs arbitrary: s) simp_all

lemma fold_length_frame:
  "(\<And>x s. x \<in> set xs \<Longrightarrow> length (f x s) = length s) \<Longrightarrow> length (fold f xs s) = length s"
  by (induction xs arbitrary: s) simp_all

lemma szero_length [simp]: "length (szero ops v vo l) = length v"
  unfolding szero_def by (rule fold_length_frame) simp

lemma szero_nth_aux:
  "j < length v \<Longrightarrow>
   fold (\<lambda>j v. v[vo + j := c]) [0..<l] v ! j = (if vo \<le> j \<and> j < vo + l then c else v ! j)"
proof (induction l)
  case 0
  then show ?case by auto
next
  case (Suc l)
  have len: "length (fold (\<lambda>j v. v[vo + j := c]) [0..<l] v) = length v"
    by (rule fold_length_frame) simp
  show ?case
    using Suc len by (cases "j = vo + l") (auto simp: nth_list_update)
qed

lemma szero_nth:
  "j < length v \<Longrightarrow>
   szero ops v vo l ! j = (if vo \<le> j \<and> j < vo + l then fof_int ops 0 else v ! j)"
  unfolding szero_def by (rule szero_nth_aux)

lemma szero_all: "length v = n \<Longrightarrow> szero ops v 0 n = replicate n (fof_int ops 0)"
  by (rule nth_equalityI) (simp_all add: szero_nth)

lemma visited_Cons:
  "visited (i # rest) = (if i = 0 then [] else i # visited rest)"
  by (simp add: visited_def)

lemma visited_Nil [simp]: "visited [] = []"
  by (simp add: visited_def)

lemma visited_nonzero: "i \<in> set (visited index) \<Longrightarrow> i \<noteq> 0"
  unfolding visited_def by (auto dest: set_takeWhileD)

lemma decode_frame:
  "j \<notin> set (visited index) \<Longrightarrow> mix_forward_decode ops k V index z ! j = z ! j"
  by (induction index arbitrary: z) (auto simp: visited_Cons)

lemma decode_length [simp]: "length (mix_forward_decode ops k V index z) = length z"
  by (induction index arbitrary: z) auto

lemma rescale_frame:
  "j \<notin> set (visited index) \<Longrightarrow>
   snd (mix_backward_rescale ops z gnrm index (flag, dz)) ! j = dz ! j"
  by (induction index arbitrary: flag dz) (auto simp: visited_Cons Let_def)

lemma rescale_length [simp]:
  "length (snd (mix_backward_rescale ops z gnrm index (flag, dz))) = length dz"
  by (induction index arbitrary: flag dz) (auto simp: Let_def)

lemma backward_dz_frame0: "mix_backward_dz ops n m k is_input S z V Phi dz ! 0 = dz ! 0"
  unfolding mix_backward_dz_def
  by (rule fold_nth_frame) (auto simp: Let_def)

lemma backward_loop_calls:
  "nat (niter - iter) = n \<Longrightarrow>
   fst (mix_backward_loop ops prox_lam m k index S dz V Snrms niter iter c U Phi gnrm cache) =
     c + n"
proof (induction n arbitrary: iter c U Phi gnrm cache)
  case 0
  then have "\<not> iter < niter" by linarith
  then show ?case
    by (subst mix_backward_loop.simps) simp
next
  case (Suc n)
  have lt: "iter < niter" using Suc.prems by linarith
  have n: "nat (niter - (iter + 1)) = n" using Suc.prems by linarith
  show ?case
    using lt Suc.IH [OF n]
    by (subst mix_backward_loop.simps) (simp add: Let_def)
qed

subsection \<open>Row 0 of the kernel's matrix\<close>

lemma kernel_swap_frame:
  "\<forall>kk \<in> set ks. i * k + kk \<noteq> j \<Longrightarrow>
   snd (fold (\<lambda>kk (g, V). (g[kk := fsub ops (g ! kk) (V ! (i * k + kk))], V[i * k + kk := g ! kk]))
          ks (g, V)) ! j = V ! j"
  by (induction ks arbitrary: g V) auto

lemma kernel_swap_length:
  "length (snd (fold (\<lambda>kk (g, V). (g[kk := fsub ops (g ! kk) (V ! (i * k + kk))], V[i * k + kk := g ! kk]))
          ks (g, V))) = length V"
  by (induction ks arbitrary: g V) auto

lemma kernel_body_V:
  "k_V (mix_kernel_body ops is_forward prox_lam m k S dz Vproj Snrms i st) =
     snd (kernel_swap ops k i
       (sscal ops (snd (kernel_dir ops is_forward prox_lam k dz Vproj (k_gnrm st) i
                     (kernel_grad ops m k S Snrms i (k_V st) (k_W st) (k_g st)))) 0
          (fdiv ops (fof_int ops 1)
             (fst (kernel_dir ops is_forward prox_lam k dz Vproj (k_gnrm st) i
                     (kernel_grad ops m k S Snrms i (k_V st) (k_W st) (k_g st))))) k,
        k_V st))"
  by (simp add: mix_kernel_body_def Let_def split: prod.splits)

lemma kernel_body_row_frame:
  "j < i * k \<or> i * k + k \<le> j \<Longrightarrow>
   k_V (mix_kernel_body ops is_forward prox_lam m k S dz Vproj Snrms i st) ! j = k_V st ! j"
  unfolding kernel_body_V kernel_swap_def
  by (rule kernel_swap_frame) auto

lemma kernel_body_V_length [simp]:
  "length (k_V (mix_kernel_body ops is_forward prox_lam m k S dz Vproj Snrms i st)) = length (k_V st)"
  unfolding kernel_body_V kernel_swap_def
  by (rule kernel_swap_length)

lemma kernel_loop_row_frame:
  "\<forall>i \<in> set (visited index). j < i * k \<or> i * k + k \<le> j \<Longrightarrow>
   k_V (mix_kernel_loop ops is_forward prox_lam m k S dz Vproj Snrms index st) ! j = k_V st ! j"
  by (induction index arbitrary: st) (auto simp: visited_Cons kernel_body_row_frame)

lemma kernel_loop_row0:
  "j < k \<Longrightarrow>
   k_V (mix_kernel_loop ops is_forward prox_lam m k S dz Vproj Snrms index st) ! j = k_V st ! j"
proof (rule kernel_loop_row_frame, rule ballI)
  fix i assume "i \<in> set (visited index)" and "j < k"
  then have "1 \<le> i" using visited_nonzero [of i index] by simp
  then have "k \<le> i * k" by (cases i) simp_all
  with \<open>j < k\<close> show "j < i * k \<or> i * k + k \<le> j" by linarith
qed

lemma mix_kernel_row0:
  "j < k \<Longrightarrow>
   k_V (mix_kernel ops is_forward prox_lam m k index S dz V Vproj W gnrm Snrms g) ! j = V ! j"
  by (simp add: mix_kernel_def kernel_loop_row0)

lemma forward_loop_row0:
  "j < k \<Longrightarrow> nat (max_iter - iter) = n \<Longrightarrow>
   fst (snd (snd (mix_forward_loop ops max_iter m k index S Snrms iter eps c V W gnrm cache))) ! j
     = V ! j"
proof (induction n arbitrary: iter eps c V W gnrm cache)
  case 0
  then have "\<not> iter < max_iter" by linarith
  then show ?case
    by (subst mix_forward_loop.simps) simp
next
  case (Suc n)
  have lt: "iter < max_iter" using Suc.prems by linarith
  have n: "nat (max_iter - (iter + 1)) = n" using Suc.prems by linarith
  show ?case
    using lt Suc.IH [OF Suc.prems(1) n] Suc.prems(1)
    by (subst mix_forward_loop.simps) (simp add: Let_def mix_kernel_row0)
qed

lemma backward_loop_row0:
  "j < k \<Longrightarrow> nat (niter - iter) = n \<Longrightarrow>
   fst (snd (mix_backward_loop ops prox_lam m k index S dz V Snrms niter iter c U Phi gnrm cache)) ! j
     = U ! j"
proof (induction n arbitrary: iter c U Phi gnrm cache)
  case 0
  then have "\<not> iter < niter" by linarith
  then show ?case
    by (subst mix_backward_loop.simps) simp
next
  case (Suc n)
  have lt: "iter < niter" using Suc.prems by linarith
  have n: "nat (niter - (iter + 1)) = n" using Suc.prems by linarith
  show ?case
    using lt Suc.IH [OF Suc.prems(1) n] Suc.prems(1)
    by (subst mix_backward_loop.simps) (simp add: Let_def mix_kernel_row0)
qed

lemma mix_forward_V:
  "f_V (mix_forward ops max_iter eps n m k index S z V W gnrm Snrms cache) =
     fst (snd (snd (mix_forward_loop ops max_iter m k index S Snrms 0 eps 0 V W gnrm cache)))"
  by (simp add: mix_forward_def split: prod.splits)

lemma mix_forward_niter:
  "f_niter (mix_forward ops max_iter eps n m k index S z V W gnrm Snrms cache) =
     fst (mix_forward_loop ops max_iter m k index S Snrms 0 eps 0 V W gnrm cache)"
  by (simp add: mix_forward_def split: prod.splits)

lemma mix_forward_calls:
  "f_calls (mix_forward ops max_iter eps n m k index S z V W gnrm Snrms cache) =
     fst (snd (mix_forward_loop ops max_iter m k index S Snrms 0 eps 0 V W gnrm cache))"
  by (simp add: mix_forward_def split: prod.splits)

lemma mix_forward_z:
  "f_z (mix_forward ops max_iter eps n m k index S z V W gnrm Snrms cache) =
     mix_forward_decode ops k
       (f_V (mix_forward ops max_iter eps n m k index S z V W gnrm Snrms cache)) index z"
  by (simp add: mix_forward_def split: prod.splits)

lemma mix_backward_U:
  "b_U (mix_backward ops prox_lam n m k is_input index niter S dS z dz V U W Phi gnrm Snrms cache) =
     (if fst (mix_backward_rescale ops z gnrm index (False, dz)) then U
      else fst (snd (mix_backward_loop ops prox_lam m k index S
             (snd (mix_backward_rescale ops z gnrm index (False, dz))) V Snrms niter 0 0
             U Phi gnrm cache)))"
  by (simp add: mix_backward_def split: prod.splits)

lemma mix_backward_calls:
  "b_calls (mix_backward ops prox_lam n m k is_input index niter S dS z dz V U W Phi gnrm Snrms cache) =
     (if fst (mix_backward_rescale ops z gnrm index (False, dz)) then 0
      else fst (mix_backward_loop ops prox_lam m k index S
             (snd (mix_backward_rescale ops z gnrm index (False, dz))) V Snrms niter 0 0
             U Phi gnrm cache))"
  by (simp add: mix_backward_def split: prod.splits)

lemma mix_backward_flagged:
  "fst (mix_backward_rescale ops z gnrm index (False, dz)) \<or>
   mix_backward_sanity ops n k
     (b_U (mix_backward ops prox_lam n m k is_input index niter S dS z dz V U W Phi gnrm Snrms cache))
   \<Longrightarrow>
   b_dz (mix_backward ops prox_lam n m k is_input index niter S dS z dz V U W Phi gnrm Snrms cache) =
     szero ops (snd (mix_backward_rescale ops z gnrm index (False, dz))) 0 n \<and>
   b_dS (mix_backward ops prox_lam n m k is_input index niter S dS z dz V U W Phi gnrm Snrms cache) = dS"
  by (auto simp: mix_backward_def split: prod.splits)

lemma mix_backward_not_flagged:
  "\<not> fst (mix_backward_rescale ops z gnrm index (False, dz)) \<Longrightarrow>
   \<not> mix_backward_sanity ops n k
     (b_U (mix_backward ops prox_lam n m k is_input index niter S dS z dz V U W Phi gnrm Snrms cache))
   \<Longrightarrow>
   b_dz (mix_backward ops prox_lam n m k is_input index niter S dS z dz V U W Phi gnrm Snrms cache) =
     mix_backward_dz ops n m k is_input S z V
       (b_Phi (mix_backward ops prox_lam n m k is_input index niter S dS z dz V U W Phi gnrm Snrms cache))
       (snd (mix_backward_rescale ops z gnrm index (False, dz)))"
  by (auto simp: mix_backward_def split: prod.splits)

subsection \<open>The primitives at length 4, and sweeps of the small instance\<close>

lemma upt_4: "[0..<4] = [0, 1, 2, 3]"
  by (simp add: upt_rec)

lemma sdot_4: "sdot ops x xo y yo 4 = fadd ops (fof_int ops 0) (dp4 ops x xo y yo)"
  by (simp add: sdot_def sdot_loop.simps)

lemma saxpy_4: "saxpy ops y yo a x xo 4 = saxpy4 ops a x xo y yo"
  by (simp add: saxpy_def saxpy_loop.simps)

lemma sscal_4:
  "sscal ops x xo a 4 =
     x[xo := fmul ops (x ! xo) a, xo + 1 := fmul ops (x ! (xo + 1)) a,
       xo + 2 := fmul ops (x ! (xo + 2)) a, xo + 3 := fmul ops (x ! (xo + 3)) a]"
  by (simp add: sscal_def sscal_main.simps sscal_rest.simps numeral_3_eq_3)

lemmas kernel_eval = mix_kernel_def mix_kernel_body_def kernel_grad_def kernel_dir_def
  kernel_swap_def kernel_accum_def snrm2_def sdot_4 saxpy_4 sscal_4 dp4_def saxpy4_def upt_4
  real_ops_def

lemmas ex_defs = ex_index_def ex_S_def ex_V_def ex_W_def ex_V1_def ex_W0_def

lemma ex_sweep_1:
  "mix_kernel real_ops True 0 4 4 ex_index ex_S [] ex_V [] ex_W [0, 0] [1, 1] [0, 0, 0, 0] =
     \<lparr> k_delta = 2, k_V = ex_V1, k_W = ex_W0, k_gnrm = [0, 1], k_g = [- 1, - 1, 0, 0] \<rparr>"
  by (simp add: kernel_eval ex_defs)

lemma ex_sweep_2:
  "mix_kernel real_ops True 0 4 4 ex_index ex_S [] ex_V1 [] ex_W0 [0, 1] [1, 1] [- 1, - 1, 0, 0] =
     \<lparr> k_delta = 0, k_V = ex_V1, k_W = ex_W0, k_gnrm = [0, 1], k_g = [0, 0, 0, 0] \<rparr>"
  by (simp add: kernel_eval ex_defs)

lemma ex_sweep_fix:
  "mix_kernel real_ops True 0 4 4 ex_index ex_S [] ex_V1 [] ex_W0 [0, 1] [1, 1] [0, 0, 0, 0] =
     \<lparr> k_delta = 0, k_V = ex_V1, k_W = ex_W0, k_gnrm = [0, 1], k_g = [0, 0, 0, 0] \<rparr>"
  by (simp add: kernel_eval ex_defs)

lemma real_ops_simps:
  "fadd real_ops = (+)" "fsub real_ops = (-)" "fmul real_ops = (*)" "fdiv real_ops = (/)"
  "flt real_ops = (<)" "fof_int real_ops = of_int" "M_PI real_ops = pi"
  "MEPS real_ops = 1 / 10 ^ 24" "fisnan real_ops = (\<lambda>x. False)" "fisinf real_ops = (\<lambda>x. False)"
  "facos real_ops = arccos" "fsin real_ops = sin" "fcos real_ops = cos" "fneg real_ops = uminus"
  "fsqrt real_ops = sqrt"
  "fcopysign real_ops = (\<lambda>x y. if y < 0 then - \<bar>x\<bar> else \<bar>x\<bar>)"
  by (simp_all add: real_ops_def)

lemma ex_forward_loop:
  "mix_forward_loop real_ops 5 4 4 ex_index ex_S [1, 1] 0 (1 / 2) 0 ex_V ex_W [0, 0] [0, 0, 0, 0] =
     (1, 2, ex_V1, ex_W0, [0, 1], [0, 0, 0, 0])"
  apply (subst mix_forward_loop.simps)
  apply (simp add: real_ops_simps ex_sweep_1 [simplified real_ops_simps, simplified])
  apply (subst mix_forward_loop.simps)
  apply (simp add: real_ops_simps ex_sweep_2 [simplified real_ops_simps, simplified])
  done

section \<open>The forward stopping rule\<close>

lemma ex_movement_fix:
  "movement real_ops 4 4 ex_index ex_S [1, 1] (ex_V1, ex_W0, [0, 1], [0, 0, 0, 0]) j = 0"
proof -
  have "forward_sweeps real_ops 4 4 ex_index ex_S [1, 1] j (ex_V1, ex_W0, [0, 1], [0, 0, 0, 0]) =
      \<lparr> k_delta = 0, k_V = ex_V1, k_W = ex_W0, k_gnrm = [0, 1], k_g = [0, 0, 0, 0] \<rparr>"
    by (induction j)
      (simp_all add: forward_sweep_def kbufs_def real_ops_simps
        ex_sweep_fix [simplified real_ops_simps, simplified])
  then show ?thesis by (simp add: movement_def)
qed

lemma ex_movement_0:
  "movement real_ops 4 4 ex_index ex_S [1, 1] (ex_V, ex_W, [0, 0], [0, 0, 0, 0]) 0 = 2"
  by (simp add: movement_def forward_sweep_def real_ops_simps
      ex_sweep_1 [simplified real_ops_simps, simplified])

lemma ex_movement_Suc:
  "movement real_ops 4 4 ex_index ex_S [1, 1] (ex_V, ex_W, [0, 0], [0, 0, 0, 0]) (Suc j) = 0"
proof -
  have "movement real_ops 4 4 ex_index ex_S [1, 1] (ex_V, ex_W, [0, 0], [0, 0, 0, 0]) (Suc j) =
      movement real_ops 4 4 ex_index ex_S [1, 1] (ex_V1, ex_W0, [0, 1], [- 1, - 1, 0, 0]) j"
    by (simp add: movement_def forward_sweep_def kbufs_def real_ops_simps
        ex_sweep_1 [simplified real_ops_simps, simplified])
  also have "\<dots> = 0"
  proof (cases j)
    case 0
    then show ?thesis
      by (simp add: movement_def forward_sweep_def real_ops_simps
          ex_sweep_2 [simplified real_ops_simps, simplified])
  next
    case (Suc j')
    have "movement real_ops 4 4 ex_index ex_S [1, 1] (ex_V1, ex_W0, [0, 1], [- 1, - 1, 0, 0]) (Suc j') =
        movement real_ops 4 4 ex_index ex_S [1, 1] (ex_V1, ex_W0, [0, 1], [0, 0, 0, 0]) j'"
      by (simp add: movement_def forward_sweep_def kbufs_def real_ops_simps
          ex_sweep_2 [simplified real_ops_simps, simplified])
    with Suc show ?thesis by (simp add: ex_movement_fix)
  qed
  finally show ?thesis .
qed



text \<open>
  C8.  In exact arithmetic: when the first forward sweep returns the movement 0, the
  rescaled tolerance is 0, and if every later sweep returns a movement that is not
  negative, the strict test never succeeds: \<open>mix_forward\<close> performs all \<open>max_iter\<close>
  sweeps and stores \<open>niter = max_iter\<close>.
\<close>

theorem forward_zero_first_movement_runs_to_max_iter:
  assumes "1 \<le> max_iter"
    and "movement real_ops m k index S Snrms (V, W, gnrm, cache) 0 = 0"
    and "\<forall>j. 1 \<le> j \<and> int j < max_iter \<longrightarrow>
           0 \<le> movement real_ops m k index S Snrms (V, W, gnrm, cache) j"
  shows "f_niter (mix_forward real_ops max_iter eps n m k index S z V W gnrm Snrms cache) = max_iter \<and>
         int (f_calls (mix_forward real_ops max_iter eps n m k index S z V W gnrm Snrms cache)) = max_iter"
proof -
  let ?d = "movement real_ops m k index S Snrms (V, W, gnrm, cache)"
  let ?r = "mix_forward_loop real_ops max_iter m k index S Snrms 0 eps 0 V W gnrm cache"
  have "\<not> (\<exists>j \<in> set [1..<nat max_iter]. flt real_ops (?d j) (fmul real_ops (?d 0) eps))"
    using assms(2,3) by (auto simp: real_ops_simps zless_nat_eq_int_zless not_less)
  then have "find (\<lambda>j. flt real_ops (?d j) (fmul real_ops (?d 0) eps)) [1..<nat max_iter] = None"
    unfolding find_None_iff by blast
  then have niter: "fst ?r = max_iter"
    using assms(1) by (simp add: forward_niter_stopping_rule stopping_rule_def)
  have "fst (snd ?r) = 0 + nat (fst ?r - 0) + (if fst ?r < max_iter then 1 else 0)"
    using forward_loop_calls [OF refl refl, where max_iter = max_iter and iter = 0
        and ops = real_ops and m = m and k = k and index = index and S = S and Snrms = Snrms
        and eps = eps and c = 0 and V = V and W = W and gnrm = gnrm and cache = cache]
    by simp
  with niter assms(1) have "int (fst (snd ?r)) = max_iter" by simp
  with niter show ?thesis
    by (simp add: mix_forward_niter mix_forward_calls)
qed

theorem forward_zero_first_movement_runs_to_max_iter_witness:
  "f_niter (mix_forward real_ops 3 (1 / 2) 2 4 4 ex_index ex_S [1, 0] ex_V1 ex_W0 [0, 1] [1, 1]
      [0, 0, 0, 0]) = 3 \<and>
   int (f_calls (mix_forward real_ops 3 (1 / 2) 2 4 4 ex_index ex_S [1, 0] ex_V1 ex_W0 [0, 1] [1, 1]
      [0, 0, 0, 0])) = 3 \<and>
   movement real_ops 4 4 ex_index ex_S [1, 1] (ex_V1, ex_W0, [0, 1], [0, 0, 0, 0]) 0 = 0"
proof -
  have h1: "(1::int) \<le> 3" by simp
  have h2: "movement real_ops 4 4 ex_index ex_S [1, 1] (ex_V1, ex_W0, [0, 1], [0, 0, 0, 0]) 0 = 0"
    by (rule ex_movement_fix)
  have h3: "\<forall>j. 1 \<le> j \<and> int j < 3 \<longrightarrow>
      0 \<le> movement real_ops 4 4 ex_index ex_S [1, 1] (ex_V1, ex_W0, [0, 1], [0, 0, 0, 0]) j"
    by (simp add: ex_movement_fix)
  show ?thesis
    using forward_zero_first_movement_runs_to_max_iter
      [OF h1 h2 h3, where eps = "1 / 2" and n = 2 and z = "[1, 0]"] h2
    by simp
qed

section \<open>Sweep counts of the two passes\<close>

lemma forward_niter_nonneg:
  "0 \<le> f_niter (mix_forward ops max_iter eps n m k index S z V W gnrm Snrms cache)"
  using forward_loop_calls [OF refl refl, where max_iter = max_iter and iter = 0
      and ops = ops and m = m and k = k and index = index and S = S and Snrms = Snrms
      and eps = eps and c = 0 and V = V and W = W and gnrm = gnrm and cache = cache]
  by (simp add: mix_forward_niter)

lemma forward_calls_exhausted:
  "max_iter \<le> f_niter (mix_forward ops max_iter eps n m k index S z V W gnrm Snrms cache) \<Longrightarrow>
   int (f_calls (mix_forward ops max_iter eps n m k index S z V W gnrm Snrms cache)) =
     f_niter (mix_forward ops max_iter eps n m k index S z V W gnrm Snrms cache)"
  using forward_loop_calls [OF refl refl, where max_iter = max_iter and iter = 0
      and ops = ops and m = m and k = k and index = index and S = S and Snrms = Snrms
      and eps = eps and c = 0 and V = V and W = W and gnrm = gnrm and cache = cache]
  by (simp add: mix_forward_niter mix_forward_calls)

lemma forward_calls_converged:
  "f_niter (mix_forward ops max_iter eps n m k index S z V W gnrm Snrms cache) < max_iter \<Longrightarrow>
   int (f_calls (mix_forward ops max_iter eps n m k index S z V W gnrm Snrms cache)) =
     f_niter (mix_forward ops max_iter eps n m k index S z V W gnrm Snrms cache) + 1"
  using forward_loop_calls [OF refl refl, where max_iter = max_iter and iter = 0
      and ops = ops and m = m and k = k and index = index and S = S and Snrms = Snrms
      and eps = eps and c = 0 and V = V and W = W and gnrm = gnrm and cache = cache]
  by (simp add: mix_forward_niter mix_forward_calls)

lemma backward_calls:
  "b_calls (mix_backward ops prox_lam n m k is_input index niter S dS z dz V U W Phi gnrm Snrms cache) =
     (if fst (mix_backward_rescale ops z gnrm index (False, dz)) then 0 else nat niter)"
  by (simp add: mix_backward_calls backward_loop_calls [OF refl])

lemma sanity_real_ops [simp]: "mix_backward_sanity real_ops n k U = False"
proof -
  have "fold (\<lambda>ik invalid_flag. invalid_flag \<or> fisnan real_ops (U ! ik) \<or> fisinf real_ops (U ! ik))
      xs False = False" for xs
    by (induction xs) (simp_all add: real_ops_simps)
  then show ?thesis by (simp add: mix_backward_sanity_def)
qed

lemma ex_rescale_valid:
  "mix_backward_rescale real_ops [1, 1 / 2] [0, 1] ex_index (False, [3, 1]) = (False, [3, 1 / pi])"
  by (simp add: ex_index_def real_ops_simps)

lemma ex_rescale_invalid:
  "mix_backward_rescale real_ops [1, 1 / 2] [0, 0] ex_index (False, [3, 0]) = (True, [3, 0])"
  by (simp add: ex_index_def real_ops_simps)

lemma ex_forward_fix_loop:
  "mix_forward_loop real_ops 3 4 4 ex_index ex_S [1, 1] 0 (1 / 2) 0 ex_V1 ex_W0 [0, 1] [0, 0, 0, 0] =
     (3, 3, ex_V1, ex_W0, [0, 1], [0, 0, 0, 0])"
  apply (subst mix_forward_loop.simps)
  apply (simp add: real_ops_simps ex_sweep_fix [simplified real_ops_simps, simplified])
  apply (subst mix_forward_loop.simps)
  apply (simp add: real_ops_simps ex_sweep_fix [simplified real_ops_simps, simplified])
  apply (subst mix_forward_loop.simps)
  apply (simp add: real_ops_simps ex_sweep_fix [simplified real_ops_simps, simplified])
  apply (subst mix_forward_loop.simps)
  apply simp
  done

text \<open>
  C1, as the code has it.  When the forward loop runs out of iterations, \<open>*niter\<close> is the
  number of \<open>mix_kernel\<close> calls \<open>mix_forward\<close> made; \<open>*niter\<close> is never negative.
  \<open>mix_backward\<close> calls \<open>mix_kernel\<close> in adjoint mode exactly \<open>*niter\<close> times when the
  rescaling loop does not raise \<open>invalid_flag\<close>, and not at all when it does: the first
  early return comes before the sweeps.
\<close>

theorem sweep_counts_of_forward_and_backward:
  "(max_iter \<le> f_niter (mix_forward ops max_iter eps n m k index S z V W gnrm Snrms cache) \<longrightarrow>
      int (f_calls (mix_forward ops max_iter eps n m k index S z V W gnrm Snrms cache)) =
        f_niter (mix_forward ops max_iter eps n m k index S z V W gnrm Snrms cache)) \<and>
   0 \<le> f_niter (mix_forward ops max_iter eps n m k index S z V W gnrm Snrms cache) \<and>
   (0 \<le> niter \<longrightarrow>
      int (b_calls (mix_backward ops prox_lam n m k is_input index niter S dS z' dz V' U W' Phi gnrm'
             Snrms cache')) =
        (if fst (mix_backward_rescale ops z' gnrm' index (False, dz)) then 0 else niter))"
  by (simp add: forward_calls_exhausted forward_niter_nonneg backward_calls)

theorem sweep_counts_of_forward_and_backward_witness:
  "f_niter (mix_forward real_ops 3 (1 / 2) 2 4 4 ex_index ex_S [1, 1 / 2] ex_V1 ex_W0 [0, 1] [1, 1]
     [0, 0, 0, 0]) = 3 \<and>
   int (f_calls (mix_forward real_ops 3 (1 / 2) 2 4 4 ex_index ex_S [1, 1 / 2] ex_V1 ex_W0 [0, 1] [1, 1]
     [0, 0, 0, 0])) = 3 \<and>
   \<not> fst (mix_backward_rescale real_ops [1, 1 / 2] [0, 1] ex_index (False, [3, 1])) \<and>
   int (b_calls (mix_backward real_ops 0 2 4 4 [1, 0] ex_index 3 ex_S ex_dS [1, 1 / 2] [3, 1] ex_V1
     ex_U ex_W0 ex_W0 [0, 1] [1, 1] [0, 0, 0, 0])) = 3"
proof -
  have n: "f_niter (mix_forward real_ops 3 (1 / 2) 2 4 4 ex_index ex_S [1, 1 / 2] ex_V1 ex_W0 [0, 1]
      [1, 1] [0, 0, 0, 0]) = 3"
    by (simp add: mix_forward_niter ex_forward_fix_loop)
  have f: "\<not> fst (mix_backward_rescale real_ops [1, 1 / 2] [0, 1] ex_index (False, [3, 1]))"
    by (simp add: ex_rescale_valid)
  show ?thesis
    using n f sweep_counts_of_forward_and_backward [where ops = real_ops and max_iter = 3
        and eps = "1 / 2" and n = 2 and m = 4 and k = 4 and index = ex_index and S = ex_S
        and z = "[1, 1 / 2]" and V = ex_V1 and W = ex_W0 and gnrm = "[0, 1]" and Snrms = "[1, 1]"
        and cache = "[0, 0, 0, 0]" and niter = 3 and prox_lam = 0 and is_input = "[1, 0]"
        and dS = ex_dS and z' = "[1, 1 / 2]" and dz = "[3, 1]" and V' = ex_V1 and U = ex_U
        and W' = ex_W0 and Phi = ex_W0 and gnrm' = "[0, 1]" and cache' = "[0, 0, 0, 0]"]
    by simp
qed

text \<open>
  The claim as stated fails twice.  On the small instance the forward loop stops in its
  second sweep: two kernel calls, \<open>niter = 1\<close>.  And with a stored gradient norm of 0
  \<open>mix_backward\<close> returns before the sweeps: no kernel call, whatever \<open>*niter\<close> is.
\<close>

theorem sweep_counts_counterexample:
  "f_niter (mix_forward real_ops 5 (1 / 2) 2 4 4 ex_index ex_S [1, 1 / 2] ex_V ex_W [0, 0] [1, 1]
     [0, 0, 0, 0]) = 1 \<and>
   f_calls (mix_forward real_ops 5 (1 / 2) 2 4 4 ex_index ex_S [1, 1 / 2] ex_V ex_W [0, 0] [1, 1]
     [0, 0, 0, 0]) = 2 \<and>
   b_calls (mix_backward real_ops 0 2 4 4 [1, 0] ex_index 2 ex_S ex_dS [1, 1 / 2] [3, 0] ex_V1
     ex_U ex_W0 ex_W0 [0, 0] [1, 1] [0, 0, 0, 0]) = 0"
  by (simp add: mix_forward_niter mix_forward_calls ex_forward_loop backward_calls ex_rescale_invalid)

section \<open>The gradients on the two exits of the backward pass\<close>

lemma rescale_keeps_0:
  "snd (mix_backward_rescale ops z gnrm index (False, dz)) ! 0 = dz ! 0"
  by (rule rescale_frame) (auto dest: visited_nonzero)

lemma backward_flagged_dz:
  assumes "length dz = n"
    and "fst (mix_backward_rescale ops z gnrm index (False, dz)) \<or>
         mix_backward_sanity ops n k
           (b_U (mix_backward ops prox_lam n m k is_input index niter S dS z dz V U W Phi gnrm Snrms cache))"
  shows "b_dz (mix_backward ops prox_lam n m k is_input index niter S dS z dz V U W Phi gnrm Snrms cache) =
           replicate n (fof_int ops 0)"
    and "b_dS (mix_backward ops prox_lam n m k is_input index niter S dS z dz V U W Phi gnrm Snrms cache) = dS"
  using mix_backward_flagged [OF assms(2)] assms(1)
  by (simp_all add: szero_all)

lemma backward_valid_dz0:
  assumes "\<not> fst (mix_backward_rescale ops z gnrm index (False, dz))"
    and "\<not> mix_backward_sanity ops n k
           (b_U (mix_backward ops prox_lam n m k is_input index niter S dS z dz V U W Phi gnrm Snrms cache))"
  shows "b_dz (mix_backward ops prox_lam n m k is_input index niter S dS z dz V U W Phi gnrm Snrms cache) ! 0 =
           dz ! 0"
  using mix_backward_not_flagged [OF assms]
  by (simp add: backward_dz_frame0 rescale_keeps_0)

text \<open>
  C2, as the code has it.  Whenever \<open>mix_backward\<close> raises \<open>invalid_flag\<close>, in the
  rescaling loop or in the sanity check over \<open>U\<close> after the adjoint sweeps, all \<open>n\<close>
  entries of \<open>dz\<close> are set to 0 and the pass returns normally.  The pass does not write
  \<open>dS\<close> on these exits: \<open>dS\<close> is what the caller supplied.
\<close>

theorem backward_invalid_zeroes_dz_keeps_dS:
  assumes "length dz = n"
    and "fst (mix_backward_rescale ops z gnrm index (False, dz)) \<or>
         mix_backward_sanity ops n k
           (b_U (mix_backward ops prox_lam n m k is_input index niter S dS z dz V U W Phi gnrm Snrms cache))"
  shows "b_dz (mix_backward ops prox_lam n m k is_input index niter S dS z dz V U W Phi gnrm Snrms cache) =
           replicate n (fof_int ops 0) \<and>
         b_dS (mix_backward ops prox_lam n m k is_input index niter S dS z dz V U W Phi gnrm Snrms cache) = dS"
  using backward_flagged_dz [OF assms] by simp

theorem backward_invalid_zeroes_dz_keeps_dS_witness:
  "fst (mix_backward_rescale real_ops [1, 1 / 2] [0, 0] ex_index (False, [3, 0])) \<and>
   b_dz (mix_backward real_ops 0 2 4 4 [1, 0] ex_index 2 ex_S ex_dS [1, 1 / 2] [3, 0] ex_V1
     ex_U ex_W0 ex_W0 [0, 0] [1, 1] [0, 0, 0, 0]) = [0, 0] \<and>
   b_dS (mix_backward real_ops 0 2 4 4 [1, 0] ex_index 2 ex_S ex_dS [1, 1 / 2] [3, 0] ex_V1
     ex_U ex_W0 ex_W0 [0, 0] [1, 1] [0, 0, 0, 0]) = ex_dS"
proof -
  have l: "length [3, 0 :: real] = 2" by simp
  have f: "fst (mix_backward_rescale real_ops [1, 1 / 2] [0, 0] ex_index (False, [3, 0]))"
    by (simp add: ex_rescale_invalid)
  then have f': "fst (mix_backward_rescale real_ops [1, 1 / 2] [0, 0] ex_index (False, [3, 0])) \<or>
      mix_backward_sanity real_ops 2 4
        (b_U (mix_backward real_ops 0 2 4 4 [1, 0] ex_index 2 ex_S ex_dS [1, 1 / 2] [3, 0] ex_V1
          ex_U ex_W0 ex_W0 [0, 0] [1, 1] [0, 0, 0, 0]))"
    by simp
  show ?thesis
    using f backward_invalid_zeroes_dz_keeps_dS [OF l f']
    by (simp add: real_ops_simps numeral_2_eq_2)
qed

text \<open>
  The claim as stated fails on \<open>dS\<close>: with a stored gradient norm of 0 the instance is
  flagged, \<open>dz\<close> is zeroed, and the \<open>dS\<close> the caller passed, all entries 5, comes back
  untouched.
\<close>

theorem backward_invalid_counterexample:
  "fst (mix_backward_rescale real_ops [1, 1 / 2] [0, 0] ex_index (False, [3, 0])) \<and>
   b_dS (mix_backward real_ops 0 2 4 4 [1, 0] ex_index 2 ex_S ex_dS [1, 1 / 2] [3, 0] ex_V1
     ex_U ex_W0 ex_W0 [0, 0] [1, 1] [0, 0, 0, 0]) = [5, 5, 5, 5, 5, 5, 5, 5] \<and>
   b_dS (mix_backward real_ops 0 2 4 4 [1, 0] ex_index 2 ex_S ex_dS [1, 1 / 2] [3, 0] ex_V1
     ex_U ex_W0 ex_W0 [0, 0] [1, 1] [0, 0, 0, 0]) \<noteq> replicate 8 0"
  by (simp add: mix_backward_def ex_rescale_invalid ex_dS_def eval_nat_numeral)

text \<open>
  C10.  On the exit where nothing is flagged \<open>mix_backward\<close> leaves \<open>dz[0]\<close> as it came
  in; on a flagged exit all \<open>n\<close> entries of \<open>dz\<close> are 0, \<open>dz[0]\<close> among them.
\<close>

theorem backward_dz0_on_both_exits:
  assumes "length dz = n"
  shows "(\<not> fst (mix_backward_rescale ops z gnrm index (False, dz)) \<and>
          \<not> mix_backward_sanity ops n k
             (b_U (mix_backward ops prox_lam n m k is_input index niter S dS z dz V U W Phi gnrm Snrms cache))
          \<longrightarrow>
          b_dz (mix_backward ops prox_lam n m k is_input index niter S dS z dz V U W Phi gnrm Snrms cache) ! 0
            = dz ! 0) \<and>
         (fst (mix_backward_rescale ops z gnrm index (False, dz)) \<or>
          mix_backward_sanity ops n k
             (b_U (mix_backward ops prox_lam n m k is_input index niter S dS z dz V U W Phi gnrm Snrms cache))
          \<longrightarrow>
          (\<forall>i < n.
             b_dz (mix_backward ops prox_lam n m k is_input index niter S dS z dz V U W Phi gnrm Snrms cache) ! i
               = fof_int ops 0) \<and>
          length (b_dz (mix_backward ops prox_lam n m k is_input index niter S dS z dz V U W Phi gnrm Snrms cache))
            = n)"
  using backward_valid_dz0 [where ops = ops and z = z and gnrm = gnrm and index = index and dz = dz
      and n = n and k = k and prox_lam = prox_lam and m = m and is_input = is_input and niter = niter
      and S = S and dS = dS and V = V and U = U and W = W and Phi = Phi and Snrms = Snrms
      and cache = cache]
    backward_flagged_dz(1) [OF assms, where ops = ops and z = z and gnrm = gnrm and index = index
      and k = k and prox_lam = prox_lam and m = m and is_input = is_input and niter = niter
      and S = S and dS = dS and V = V and U = U and W = W and Phi = Phi and Snrms = Snrms
      and cache = cache]
  by auto

theorem backward_dz0_on_both_exits_witness:
  "\<not> fst (mix_backward_rescale real_ops [1, 1 / 2] [0, 1] ex_index (False, [3, 1])) \<and>
   b_dz (mix_backward real_ops 0 2 4 4 [1, 0] ex_index 3 ex_S ex_dS [1, 1 / 2] [3, 1] ex_V1
     ex_U ex_W0 ex_W0 [0, 1] [1, 1] [0, 0, 0, 0]) ! 0 = 3 \<and>
   fst (mix_backward_rescale real_ops [1, 1 / 2] [0, 0] ex_index (False, [3, 0])) \<and>
   b_dz (mix_backward real_ops 0 2 4 4 [1, 0] ex_index 3 ex_S ex_dS [1, 1 / 2] [3, 0] ex_V1
     ex_U ex_W0 ex_W0 [0, 0] [1, 1] [0, 0, 0, 0]) ! 0 = 0"
proof -
  have l1: "length [3, 1 :: real] = 2" by simp
  have l2: "length [3, 0 :: real] = 2" by simp
  have v: "\<not> fst (mix_backward_rescale real_ops [1, 1 / 2] [0, 1] ex_index (False, [3, 1]))"
    by (simp add: ex_rescale_valid)
  have f: "fst (mix_backward_rescale real_ops [1, 1 / 2] [0, 0] ex_index (False, [3, 0]))"
    by (simp add: ex_rescale_invalid)
  show ?thesis
    using v f
      backward_dz0_on_both_exits [OF l1, where ops = real_ops and z = "[1, 1 / 2]"
        and gnrm = "[0, 1]" and index = ex_index and k = 4 and prox_lam = 0 and m = 4
        and is_input = "[1, 0]" and niter = 3 and S = ex_S and dS = ex_dS and V = ex_V1
        and U = ex_U and W = ex_W0 and Phi = ex_W0 and Snrms = "[1, 1]" and cache = "[0, 0, 0, 0]"]
      backward_dz0_on_both_exits [OF l2, where ops = real_ops and z = "[1, 1 / 2]"
        and gnrm = "[0, 0]" and index = ex_index and k = 4 and prox_lam = 0 and m = 4
        and is_input = "[1, 0]" and niter = 3 and S = ex_S and dS = ex_dS and V = ex_V1
        and U = ex_U and W = ex_W0 and Phi = ex_W0 and Snrms = "[1, 1]" and cache = "[0, 0, 0, 0]"]
    by (simp add: real_ops_simps)
qed

subsection \<open>What raises the flag\<close>

lemma rescale_flag_mono:
  "fst (mix_backward_rescale ops z gnrm index (True, dz))"
  by (induction index arbitrary: dz) (auto simp: Let_def)

lemma rescale_flag_iff:
  "distinct (visited index) \<Longrightarrow>
   fst (mix_backward_rescale ops z gnrm index (flag, dz)) \<longleftrightarrow>
     flag \<or> (\<exists>i \<in> set (visited index).
        fisnan ops (fdiv ops (fdiv ops (dz ! i) (M_PI ops)) (fsin ops (fmul ops (z ! i) (M_PI ops)))) \<or>
        fisinf ops (fdiv ops (fdiv ops (dz ! i) (M_PI ops)) (fsin ops (fmul ops (z ! i) (M_PI ops)))) \<or>
        flt ops (gnrm ! i) (MEPS ops))"
proof (induction index arbitrary: flag dz)
  case Nil
  then show ?case by simp
next
  case (Cons i rest)
  show ?case
  proof (cases "i = 0")
    case True
    then show ?thesis by (simp add: visited_Cons)
  next
    case False
    let ?dzi = "fdiv ops (fdiv ops (dz ! i) (M_PI ops)) (fsin ops (fmul ops (z ! i) (M_PI ops)))"
    from Cons.prems False have d: "distinct (visited rest)" and ni: "i \<notin> set (visited rest)"
      by (simp_all add: visited_Cons)
    have same: "dz[i := ?dzi] ! j = dz ! j" if "j \<in> set (visited rest)" for j
    proof -
      from that ni have "i \<noteq> j" by auto
      then show ?thesis by simp
    qed
    show ?thesis
      using False Cons.IH [OF d] same
      by (auto simp: visited_Cons Let_def)
  qed
qed

lemma sanity_iff:
  "mix_backward_sanity ops n k U \<longleftrightarrow> (\<exists>ik < n * k. fisnan ops (U ! ik) \<or> fisinf ops (U ! ik))"
proof -
  have "fold (\<lambda>ik invalid_flag. invalid_flag \<or> fisnan ops (U ! ik) \<or> fisinf ops (U ! ik)) xs b \<longleftrightarrow>
      b \<or> (\<exists>ik \<in> set xs. fisnan ops (U ! ik) \<or> fisinf ops (U ! ik))" for xs b
    by (induction xs arbitrary: b) auto
  then show ?thesis
    by (auto simp: mix_backward_sanity_def)
qed

section \<open>The index that \<open>mix_init\<close> builds\<close>

lemma init_index_walk:
  assumes "fold (\<lambda>ip (j, index).
              let i = perm ! ip + 1
              in if is_input ! i = 0 then (j + 1, index[j := i]) else (j, index)) ips (j, index)
           = (j', index')"
    and "\<forall>p < j. p < length index \<longrightarrow> index ! p \<noteq> 0 \<and> is_input ! (index ! p) = 0"
  shows "length index' = length index \<and> j' \<le> j + length ips \<and>
         (\<forall>p < j'. p < length index' \<longrightarrow> index' ! p \<noteq> 0 \<and> is_input ! (index' ! p) = 0)"
  using assms
proof (induction ips arbitrary: j index)
  case Nil
  then show ?case by simp
next
  case (Cons ip ips)
  show ?case
  proof (cases "is_input ! (perm ! ip + 1) = 0")
    case True
    have inv: "\<forall>p < j + 1. p < length (index[j := perm ! ip + 1]) \<longrightarrow>
        index[j := perm ! ip + 1] ! p \<noteq> 0 \<and> is_input ! (index[j := perm ! ip + 1] ! p) = 0"
      using Cons.prems(2) True by (auto simp: nth_list_update less_Suc_eq)
    from Cons.prems(1) True
    have "fold (\<lambda>ip (j, index).
              let i = perm ! ip + 1
              in if is_input ! i = 0 then (j + 1, index[j := i]) else (j, index)) ips
            (j + 1, index[j := perm ! ip + 1]) = (j', index')"
      by (simp add: Let_def)
    from Cons.IH [OF this inv] show ?thesis by simp
  next
    case False
    from Cons.prems(1) False
    have "fold (\<lambda>ip (j, index).
              let i = perm ! ip + 1
              in if is_input ! i = 0 then (j + 1, index[j := i]) else (j, index)) ips
            (j, index) = (j', index')"
      by (simp add: Let_def)
    from Cons.IH [OF this Cons.prems(2)] show ?thesis by simp
  qed
qed

lemma zero_fill_nth:
  "p < length index \<Longrightarrow>
   fold (\<lambda>j index. index[j := 0]) [a..<n] index ! p = (if a \<le> p \<and> p < n then 0 else index ! p)"
proof (induction n)
  case 0
  then show ?case by simp
next
  case (Suc n)
  have len: "length (fold (\<lambda>j index. index[j := 0]) [a..<n] index) = length index"
    by (rule fold_length_frame) simp
  show ?case
    using Suc len by (cases "p = n") (auto simp: nth_list_update)
qed

lemma zero_fill_length:
  "length (fold (\<lambda>j index. index[j := (0::nat)]) [a..<n] index) = length index"
  by (rule fold_length_frame) simp

lemma init_index_visited:
  assumes "length index = n"
    and "x \<in> set (visited (mix_init_index perm n is_input index))"
  shows "is_input ! x = 0"
proof -
  obtain j' index' where w: "fold (\<lambda>ip (j, index).
              let i = perm ! ip + 1
              in if is_input ! i = 0 then (j + 1, index[j := i]) else (j, index)) [0..<n - 1] (0, index)
           = (j', index')"
    by (cases "fold (\<lambda>ip (j, index).
              let i = perm ! ip + 1
              in if is_input ! i = 0 then (j + 1, index[j := i]) else (j, index)) [0..<n - 1] (0, index)")
  let ?fin = "fold (\<lambda>j index. index[j := 0]) [j'..<n] index'"
  have fin: "mix_init_index perm n is_input index = ?fin"
    apply (unfold mix_init_index_def)
    apply (unfold w)
    apply simp
    done
  from init_index_walk [OF w] have len: "length index' = n" and j': "j' \<le> n - 1"
    and inv: "\<forall>p < j'. p < length index' \<longrightarrow> index' ! p \<noteq> 0 \<and> is_input ! (index' ! p) = 0"
    using assms(1) by simp_all
  have flen: "length ?fin = n" using len by (simp add: zero_fill_length)
  let ?t = "takeWhile (\<lambda>i. i \<noteq> 0) ?fin"
  from assms(2) obtain p where p: "p < length ?t" and x: "x = ?t ! p"
    unfolding fin visited_def by (auto simp: in_set_conv_nth)
  have tl: "length ?t \<le> n" using length_takeWhile_le [of "\<lambda>i. i \<noteq> 0" ?fin] flen by simp
  have pn: "p < n" using p tl by simp
  have tn: "?fin ! q \<noteq> 0" if "q < length ?t" for q
  proof -
    from that have "?t ! q \<in> set ?t" by (rule nth_mem)
    then have "?t ! q \<noteq> 0" by (auto dest: set_takeWhileD)
    moreover have "?t ! q = ?fin ! q" using that by (rule takeWhile_nth)
    ultimately show ?thesis by simp
  qed
  have "p < j'"
  proof (rule ccontr)
    assume "\<not> p < j'"
    then have jt: "j' < length ?t" and jn: "j' < n" using p pn by simp_all
    have "?fin ! j' \<noteq> 0" using jt by (rule tn)
    moreover have "?fin ! j' = 0" using jn len by (simp add: zero_fill_nth)
    ultimately show False by simp
  qed
  then have "?fin ! p = index' ! p" using pn len by (simp add: zero_fill_nth)
  moreover have "?t ! p = ?fin ! p" using p by (rule takeWhile_nth)
  ultimately show ?thesis
    using inv \<open>p < j'\<close> pn len x by simp
qed

lemma ex_init_index:
  "fst (mix_init real_ops [0] 2 4 [1, 0] [7, 7] [1, 1 / 2] [2, 0, 0, 0, 0, 1, 0, 0]) = ex_index"
  by (simp add: mix_init_def mix_init_index_def ex_index_def upt_rec Let_def)

lemma ex_init_row0:
  "snd (mix_init real_ops [0] 2 4 [1, 0] [7, 7] [1, 1 / 2] [2, 0, 0, 0, 0, 1, 0, 0]) ! 0 = 1"
  by (simp add: mix_init_def mix_init_row_def szero_def sdot_4 sscal_4 dp4_def real_ops_simps upt_4
      upt_rec [of 0 2] upt_rec [of "Suc 0" 2] Let_def)

text \<open>
  C7, as the code has it.  The coordinate-update kernel, in forward and in adjoint mode,
  never writes row 0 of the matrix it updates: the sweep stops at id 0.  So the forward
  pass leaves row 0 of \<open>V\<close> as it was, and the backward pass, which takes \<open>V\<close> as a
  \<open>const\<close> buffer and runs the kernel on \<open>U\<close>, leaves row 0 of \<open>U\<close> as it was.
  Initialization is not covered: \<open>mix_init\<close> rewrites every row from \<open>i = 0\<close> on.
\<close>

theorem row0_kept_by_kernel_forward_backward:
  assumes "j < k"
  shows "k_V (mix_kernel ops is_forward prox_lam m k index S dz V Vproj W gnrm Snrms g) ! j = V ! j \<and>
         f_V (mix_forward ops max_iter eps n m k index S z V W gnrm Snrms cache) ! j = V ! j \<and>
         b_U (mix_backward ops prox_lam n m k is_input index niter S dS z dz V U W' Phi gnrm Snrms cache) ! j
           = U ! j"
proof (intro conjI)
  show "k_V (mix_kernel ops is_forward prox_lam m k index S dz V Vproj W gnrm Snrms g) ! j = V ! j"
    by (rule mix_kernel_row0 [OF assms])
  show "f_V (mix_forward ops max_iter eps n m k index S z V W gnrm Snrms cache) ! j = V ! j"
    unfolding mix_forward_V by (rule forward_loop_row0 [OF assms refl])
  show "b_U (mix_backward ops prox_lam n m k is_input index niter S dS z dz V U W' Phi gnrm Snrms cache) ! j
      = U ! j"
    by (cases "fst (mix_backward_rescale ops z gnrm index (False, dz))")
      (simp_all only: mix_backward_U if_True if_False backward_loop_row0 [OF assms refl])
qed

theorem row0_kept_by_kernel_forward_backward_witness:
  "(0::nat) < 4 \<and>
   k_V (mix_kernel real_ops True 0 4 4 ex_index ex_S [3, 1] ex_V ex_V1 ex_W [0, 1] [1, 1] [0, 0, 0, 0]) ! 0
     = 1 \<and>
   f_V (mix_forward real_ops 5 (1 / 2) 2 4 4 ex_index ex_S [1, 1 / 2] ex_V ex_W [0, 1] [1, 1]
     [0, 0, 0, 0]) ! 0 = 1 \<and>
   b_U (mix_backward real_ops 0 2 4 4 [1, 0] ex_index 3 ex_S ex_dS [1, 1 / 2] [3, 1] ex_V
     ex_U ex_W0 ex_W0 [0, 1] [1, 1] [0, 0, 0, 0]) ! 0 = 0"
proof -
  have h: "(0::nat) < 4" by simp
  have v: "ex_V ! 0 = 1" and u: "ex_U ! 0 = 0"
    by (simp_all add: ex_V_def ex_U_def)
  show ?thesis
    using h
      row0_kept_by_kernel_forward_backward [OF h, where ops = real_ops and is_forward = True
        and prox_lam = 0 and m = 4 and index = ex_index and S = ex_S and dz = "[3, 1]" and V = ex_V
        and Vproj = ex_V1 and W = ex_W and gnrm = "[0, 1]" and Snrms = "[1, 1]" and g = "[0, 0, 0, 0]"
        and max_iter = 5 and eps = "1 / 2" and n = 2 and z = "[1, 1 / 2]" and cache = "[0, 0, 0, 0]"
        and U = ex_U and is_input = "[1, 0]" and niter = 3 and dS = ex_dS and W' = ex_W0
        and Phi = ex_W0]
    unfolding v u by simp
qed

text \<open>
  The claim as stated fails for initialization.  With variable 0 an input of value
  \<open>z[0] = 1\<close> (the usual truth variable) and a first row \<open>(2, 0, 0, 0)\<close>, \<open>mix_init\<close>
  overwrites \<open>V[0]\<close> with \<open>-cos(pi) = 1\<close>.
\<close>

theorem row0_rewritten_by_init_counterexample:
  "snd (mix_init real_ops [0] 2 4 [1, 0] [7, 7] [1, 1 / 2] [2, 0, 0, 0, 0, 1, 0, 0]) ! 0 = 1 \<and>
   [2, 0, 0, 0, 0, 1, 0, 0] ! 0 = (2::real)"
  by (simp add: ex_init_row0)

text \<open>
  C9.  \<open>mix_forward\<close> writes \<open>z\<close> only at the ids the index lists before the sentinel:
  every other entry is as it was, the entry of variable 0 in particular, and, when the
  index is the one \<open>mix_init\<close> built from the input flags, the entry of every input
  variable.
\<close>

theorem forward_writes_z_only_at_visited:
  "(j \<notin> set (visited index) \<longrightarrow>
      f_z (mix_forward ops max_iter eps n m k index S z V W gnrm Snrms cache) ! j = z ! j) \<and>
   f_z (mix_forward ops max_iter eps n m k index S z V W gnrm Snrms cache) ! 0 = z ! 0 \<and>
   (length index0 = n \<and> index = fst (mix_init ops perm n k is_input index0 z0 V0) \<and>
    is_input ! j \<noteq> 0 \<longrightarrow>
      f_z (mix_forward ops max_iter eps n m k index S z V W gnrm Snrms cache) ! j = z ! j)"
proof -
  have 0: "0 \<notin> set (visited index)" by (auto dest: visited_nonzero)
  have "j \<notin> set (visited index)"
    if "length index0 = n" "index = fst (mix_init ops perm n k is_input index0 z0 V0)"
      "is_input ! j \<noteq> 0"
    using that init_index_visited [of index0 n j perm is_input] by (auto simp: mix_init_def)
  then show ?thesis
    using 0 by (auto simp: mix_forward_z decode_frame)
qed

theorem forward_writes_z_only_at_visited_witness:
  "0 \<notin> set (visited ex_index) \<and>
   length [7, 7 :: nat] = 2 \<and>
   ex_index = fst (mix_init real_ops [0] 2 4 [1, 0] [7, 7] [1, 1 / 2] [2, 0, 0, 0, 0, 1, 0, 0]) \<and>
   [1, 0 :: int] ! 0 \<noteq> 0 \<and>
   f_z (mix_forward real_ops 5 (1 / 2) 2 4 4 ex_index ex_S [1, 1 / 2] ex_V ex_W [0, 0] [1, 1]
     [0, 0, 0, 0]) ! 0 = 1"
proof -
  have a: "0 \<notin> set (visited ex_index)" by (simp add: visited_def ex_index_def)
  have b: "ex_index = fst (mix_init real_ops [0] 2 4 [1, 0] [7, 7] [1, 1 / 2] [2, 0, 0, 0, 0, 1, 0, 0])"
    by (simp add: ex_init_index)
  show ?thesis
    using a b
      forward_writes_z_only_at_visited [where j = 0 and index = ex_index and ops = real_ops
        and max_iter = 5 and eps = "1 / 2" and n = 2 and m = 4 and k = 4 and S = ex_S
        and z = "[1, 1 / 2]" and V = ex_V and W = ex_W and gnrm = "[0, 0]" and Snrms = "[1, 1]"
        and cache = "[0, 0, 0, 0]" and index0 = "[7, 7]" and perm = "[0]" and is_input = "[1, 0]"
        and z0 = "[1, 1 / 2]" and V0 = "[2, 0, 0, 0, 0, 1, 0, 0]"]
    by simp
qed

section \<open>What the vector primitives compute\<close>

lemma saxpy4_length [simp]: "length (saxpy4 ops a x xo y yo) = length y"
  by (simp add: saxpy4_def)

lemma saxpy4_nth:
  "yo + 4 \<le> length y \<Longrightarrow>
   saxpy4 ops a x xo y yo ! p =
     (if yo \<le> p \<and> p < yo + 4 then fadd ops (fmul ops a (x ! (xo + (p - yo)))) (y ! p) else y ! p)"
proof -
  assume len: "yo + 4 \<le> length y"
  consider "p < yo" | "p = yo" | "p = yo + 1" | "p = yo + 2" | "p = yo + 3" | "yo + 4 \<le> p"
    by linarith
  then show ?thesis
    using len by cases (simp_all add: saxpy4_def nth_list_update)
qed

lemma saxpy_loop_length [simp]: "length (saxpy_loop ops a x xo yo l i y) = length y"
  by (induction ops a x xo yo l i y rule: saxpy_loop.induct)
    (subst saxpy_loop.simps, simp)

lemma saxpy_loop_nth:
  "4 dvd l \<Longrightarrow> 4 dvd i \<Longrightarrow> yo + l \<le> length y \<Longrightarrow>
   saxpy_loop ops a x xo yo l i y ! p =
     (if yo + i \<le> p \<and> p < yo + l then fadd ops (fmul ops a (x ! (xo + (p - yo)))) (y ! p)
      else y ! p)"
proof (induction ops a x xo yo l i y rule: saxpy_loop.induct)
  case (1 ops a x xo yo l i y)
  show ?case
  proof (cases "i < l")
    case False
    then have "\<not> (yo + i \<le> p \<and> p < yo + l)" by linarith
    with False show ?thesis by (subst saxpy_loop.simps) (simp only: if_False)
  next
    case True
    with "1.prems" have step: "i + 4 \<le> l" by presburger
    have d: "4 dvd (i + 4)" using "1.prems"(2) by simp
    have len: "yo + i + 4 \<le> length y" using step "1.prems"(3) by simp
    have len': "yo + l \<le> length (saxpy4 ops a x (xo + i) y (yo + i))"
      using "1.prems"(3) by simp
    have off: "xo + i + (p - (yo + i)) = xo + (p - yo)" if "yo + i \<le> p"
      using that by simp
    show ?thesis
      using True step "1.IH" [OF True "1.prems"(1) d len']
        saxpy4_nth [OF len, where ops = ops and a = a and x = x and xo = "xo + i" and p = p] off
      by (subst saxpy_loop.simps) (auto simp: add.assoc)
  qed
qed

lemma saxpy_length [simp]: "length (saxpy ops y yo a x xo l) = length y"
  by (simp add: saxpy_def)

lemma saxpy_nth:
  "4 dvd l \<Longrightarrow> yo + l \<le> length y \<Longrightarrow>
   saxpy ops y yo a x xo l ! p =
     (if yo \<le> p \<and> p < yo + l then fadd ops (fmul ops a (x ! (xo + (p - yo)))) (y ! p)
      else y ! p)"
  using saxpy_loop_nth [of l 0 yo y ops a x xo p] by (simp add: saxpy_def)

lemma sscal_rest_length [simp]: "length (sscal_rest ops a xo l i x) = length x"
  by (induction ops a xo l i x rule: sscal_rest.induct)
    (subst sscal_rest.simps, simp)

lemma sscal_rest_nth:
  "xo + l \<le> length x \<Longrightarrow>
   sscal_rest ops a xo l i x ! p =
     (if xo + i \<le> p \<and> p < xo + l then fmul ops (x ! p) a else x ! p)"
proof (induction ops a xo l i x rule: sscal_rest.induct)
  case (1 ops a xo l i x)
  show ?case
  proof (cases "i < l")
    case False
    then have "\<not> (xo + i \<le> p \<and> p < xo + l)" by linarith
    with False show ?thesis by (subst sscal_rest.simps) (simp only: if_False)
  next
    case True
    have len: "xo + l \<le> length (x[xo + i := fmul ops (x ! (xo + i)) a])"
      using "1.prems" by simp
    have here: "xo + i < length x" using True "1.prems" by simp
    show ?thesis
      using True here "1.IH" [OF True len]
      by (subst sscal_rest.simps) (auto simp: nth_list_update)
  qed
qed

lemma sscal_main_props:
  "xo + l \<le> length x \<Longrightarrow> i \<le> l \<Longrightarrow> sscal_main ops a xo l i x = (i', x') \<Longrightarrow>
   i \<le> i' \<and> i' \<le> l \<and> length x' = length x \<and>
   (\<forall>p. x' ! p = (if xo + i \<le> p \<and> p < xo + i' then fmul ops (x ! p) a else x ! p))"
proof (induction ops a xo l i x rule: sscal_main.induct)
  case (1 ops a xo l i x)
  show ?case
  proof (cases "int i < int l - 4")
    case False
    with "1.prems" show ?thesis
      by (subst (asm) sscal_main.simps) auto
  next
    case True
    let ?x = "x[xo + i := fmul ops (x ! (xo + i)) a,
                xo + i + 1 := fmul ops (x ! (xo + i + 1)) a,
                xo + i + 2 := fmul ops (x ! (xo + i + 2)) a,
                xo + i + 3 := fmul ops (x ! (xo + i + 3)) a,
                xo + i + 4 := fmul ops (x ! (xo + i + 4)) a]"
    have step: "i + 5 \<le> l" using True by linarith
    have len: "xo + l \<le> length ?x" using "1.prems"(1) by simp
    have rec: "sscal_main ops a xo l (i + 5) ?x = (i', x')"
      using "1.prems"(3) True by (subst (asm) sscal_main.simps) simp
    have xs: "?x ! p = (if xo + i \<le> p \<and> p < xo + i + 5 then fmul ops (x ! p) a else x ! p)" for p
    proof -
      consider "p < xo + i" | "p = xo + i" | "p = xo + i + 1" | "p = xo + i + 2"
        | "p = xo + i + 3" | "p = xo + i + 4" | "xo + i + 5 \<le> p"
        by linarith
      then show ?thesis
        using step "1.prems"(1) by cases (simp_all add: nth_list_update)
    qed
    from "1.IH" [OF True len step rec]
    have ih: "i + 5 \<le> i'" "i' \<le> l" "length x' = length ?x"
      "\<And>p. x' ! p = (if xo + (i + 5) \<le> p \<and> p < xo + i' then fmul ops (?x ! p) a else ?x ! p)"
      by simp_all
    have "x' ! p = (if xo + i \<le> p \<and> p < xo + i' then fmul ops (x ! p) a else x ! p)" for p
      unfolding ih(4) xs using ih(1) by auto
    with ih(1,2,3) show ?thesis by simp
  qed
qed

lemma sscal_main_length [simp]: "length (snd (sscal_main ops a xo l i x)) = length x"
  by (induction ops a xo l i x rule: sscal_main.induct)
    (subst sscal_main.simps, simp)

lemma sscal_length [simp]: "length (sscal ops x xo a l) = length x"
  using sscal_main_length [of ops a xo l 0 x]
  by (cases "sscal_main ops a xo l 0 x") (simp add: sscal_def)

lemma sscal_nth:
  assumes "xo + l \<le> length x"
  shows "sscal ops x xo a l ! p = (if xo \<le> p \<and> p < xo + l then fmul ops (x ! p) a else x ! p)"
proof -
  obtain i' x' where m: "sscal_main ops a xo l 0 x = (i', x')"
    by (cases "sscal_main ops a xo l 0 x")
  from sscal_main_props [OF assms _ m]
  have i': "i' \<le> l" and len: "length x' = length x"
    and x': "\<And>p. x' ! p = (if xo + 0 \<le> p \<and> p < xo + i' then fmul ops (x ! p) a else x ! p)"
    by simp_all
  have "xo + l \<le> length x'" using assms len by simp
  from sscal_rest_nth [OF this, of ops a i' p] show ?thesis
    using i' by (auto simp: sscal_def m x')
qed

lemma dp4_real:
  "dp4 real_ops x xo y yo = (\<Sum>j = 0..<4. x ! (xo + j) * y ! (yo + j))"
proof -
  have "{0..<4::nat} = {0, 1, 2, 3}" by auto
  then show ?thesis by (simp add: dp4_def real_ops_simps)
qed

lemma sdot_loop_real:
  "4 dvd l \<Longrightarrow> 4 dvd i \<Longrightarrow>
   sdot_loop real_ops x xo y yo l i s = s + (\<Sum>j = i..<l. x ! (xo + j) * y ! (yo + j))"
proof (induction real_ops x xo y yo l i s rule: sdot_loop.induct)
  case (1 x xo y yo l i s)
  show ?case
  proof (cases "i < l")
    case False
    then show ?thesis by (subst sdot_loop.simps) simp
  next
    case True
    with "1.prems" have step: "i + 4 \<le> l" by presburger
    have d: "4 dvd (i + 4)" using "1.prems"(2) by simp
    have "(\<Sum>j = 0..<4. x ! (xo + i + j) * y ! (yo + i + j)) =
        (\<Sum>j = i..<i + 4. x ! (xo + j) * y ! (yo + j))"
      by (rule sum.reindex_bij_witness [of _ "\<lambda>j. j - i" "\<lambda>j. j + i"]) (auto simp: ac_simps)
    moreover have "(\<Sum>j = i..<l. x ! (xo + j) * y ! (yo + j)) =
        (\<Sum>j = i..<i + 4. x ! (xo + j) * y ! (yo + j)) + (\<Sum>j = i + 4..<l. x ! (xo + j) * y ! (yo + j))"
      using step by (simp add: sum.atLeastLessThan_concat)
    ultimately show ?thesis
      using True "1.hyps" [OF True "1.prems"(1) d]
      by (subst sdot_loop.simps) (simp add: dp4_real real_ops_simps)
  qed
qed

lemma sdot_real:
  "4 dvd l \<Longrightarrow> sdot real_ops x xo y yo l = (\<Sum>j < l. x ! (xo + j) * y ! (yo + j))"
  by (simp add: sdot_def sdot_loop_real real_ops_simps lessThan_atLeast0)

subsection \<open>Rows of a flat matrix\<close>

lemma row_range_iff:
  "0 < m \<Longrightarrow> (r * m \<le> p \<and> p < r * m + m) \<longleftrightarrow> p div m = r" for m :: nat
proof
  assume m: "0 < m" and "r * m \<le> p \<and> p < r * m + m"
  then show "p div m = r"
    by (intro div_nat_eqI) (simp_all add: mult.commute)
next
  assume m: "0 < m" and r: "p div m = r"
  have "p = (p div m) * m + p mod m" by simp
  moreover have "p mod m < m" using m by simp
  ultimately show "r * m \<le> p \<and> p < r * m + m" using r
    by (metis add_less_cancel_left le_add1)
qed

lemma row_before: "i' < i \<Longrightarrow> kk < k \<Longrightarrow> i' * k + kk < i * k" for k :: nat
proof -
  assume "i' < i" "kk < k"
  then have "Suc i' * k \<le> i * k" by (intro mult_le_mono1) simp
  with \<open>kk < k\<close> show ?thesis by simp
qed

lemma row_after: "i < i' \<Longrightarrow> i * k + k \<le> i' * k + kk" for k :: nat
proof -
  assume "i < i'"
  then have "Suc i * k \<le> i' * k" by (intro mult_le_mono1) simp
  then show ?thesis by simp
qed

lemma row_other: "i' \<noteq> i \<Longrightarrow> kk < k \<Longrightarrow> i' * k + kk < i * k \<or> i * k + k \<le> i' * k + kk"
  for k :: nat
  using row_before [of i' i kk k] row_after [of i i' k kk] by (cases "i' < i") auto

lemma row_within: "i < n \<Longrightarrow> kk < k \<Longrightarrow> i * k + kk < n * k" for k :: nat
  by (rule row_before)

section \<open>What one update of the kernel computes\<close>

lemma kernel_swap_props:
  assumes "k' \<le> length g" and "i * k + k' \<le> length V"
  shows "length (fst (fold (\<lambda>kk (g, V). (g[kk := fsub ops (g ! kk) (V ! (i * k + kk))], V[i * k + kk := g ! kk]))
            [0..<k'] (g, V))) = length g \<and>
         length (snd (fold (\<lambda>kk (g, V). (g[kk := fsub ops (g ! kk) (V ! (i * k + kk))], V[i * k + kk := g ! kk]))
            [0..<k'] (g, V))) = length V \<and>
         (\<forall>kk. fst (fold (\<lambda>kk (g, V). (g[kk := fsub ops (g ! kk) (V ! (i * k + kk))], V[i * k + kk := g ! kk]))
            [0..<k'] (g, V)) ! kk = (if kk < k' then fsub ops (g ! kk) (V ! (i * k + kk)) else g ! kk)) \<and>
         (\<forall>p. snd (fold (\<lambda>kk (g, V). (g[kk := fsub ops (g ! kk) (V ! (i * k + kk))], V[i * k + kk := g ! kk]))
            [0..<k'] (g, V)) ! p = (if i * k \<le> p \<and> p < i * k + k' then g ! (p - i * k) else V ! p))"
  using assms
proof (induction k')
  case 0
  then show ?case by auto
next
  case (Suc k')
  let ?R = "fold (\<lambda>kk (g, V). (g[kk := fsub ops (g ! kk) (V ! (i * k + kk))], V[i * k + kk := g ! kk]))
            [0..<k'] (g, V)"
  from Suc have ih: "length (fst ?R) = length g" "length (snd ?R) = length V"
    "\<And>kk. fst ?R ! kk = (if kk < k' then fsub ops (g ! kk) (V ! (i * k + kk)) else g ! kk)"
    "\<And>p. snd ?R ! p = (if i * k \<le> p \<and> p < i * k + k' then g ! (p - i * k) else V ! p)"
    by simp_all
  have lg: "k' < length (fst ?R)" and lV: "i * k + k' < length (snd ?R)"
    using Suc.prems ih(1,2) by simp_all
  have g: "(fst ?R)[k' := fsub ops (fst ?R ! k') (snd ?R ! (i * k + k'))] ! kk =
      (if kk < Suc k' then fsub ops (g ! kk) (V ! (i * k + kk)) else g ! kk)" for kk
    using lg by (cases "kk = k'") (simp_all add: ih(3,4) nth_list_update)
  have V: "(snd ?R)[i * k + k' := fst ?R ! k'] ! p =
      (if i * k \<le> p \<and> p < i * k + Suc k' then g ! (p - i * k) else V ! p)" for p
    using lV by (cases "p = i * k + k'") (auto simp: ih(3,4) nth_list_update)
  show ?case
    using g V ih(1,2) by (simp add: case_prod_unfold)
qed

lemma kernel_accum_props:
  assumes "4 dvd m" and "k' * m \<le> length W"
  shows "length (fold (\<lambda>kk W. saxpy ops W (kk * m) (g ! kk) S (i * m) m) [0..<k'] W) = length W \<and>
         (\<forall>p. fold (\<lambda>kk W. saxpy ops W (kk * m) (g ! kk) S (i * m) m) [0..<k'] W ! p =
            (if p < k' * m
             then fadd ops (fmul ops (g ! (p div m)) (S ! (i * m + p mod m))) (W ! p)
             else W ! p))"
  using assms(2)
proof (induction k')
  case 0
  then show ?case by simp
next
  case (Suc k')
  let ?W = "fold (\<lambda>kk W. saxpy ops W (kk * m) (g ! kk) S (i * m) m) [0..<k'] W"
  from Suc have ih: "length ?W = length W"
    "\<And>p. ?W ! p = (if p < k' * m
             then fadd ops (fmul ops (g ! (p div m)) (S ! (i * m + p mod m))) (W ! p)
             else W ! p)"
    by simp_all
  have len: "k' * m + m \<le> length ?W" using Suc.prems ih(1) by simp
  have "saxpy ops ?W (k' * m) (g ! k') S (i * m) m ! p =
      (if p < Suc k' * m
       then fadd ops (fmul ops (g ! (p div m)) (S ! (i * m + p mod m))) (W ! p)
       else W ! p)" for p
  proof (cases "m = 0")
    case True
    then show ?thesis using ih(2) [of p] by (simp add: saxpy_def saxpy_loop.simps)
  next
    case False
    then have m: "0 < m" by simp
    show ?thesis
    proof (cases "k' * m \<le> p \<and> p < k' * m + m")
      case True
      then have d: "p div m = k'" using row_range_iff [OF m] by blast
      then have "p - k' * m = p mod m"
        by (metis minus_div_mult_eq_mod)
      with True d show ?thesis
        by (simp add: saxpy_nth [OF assms(1) len] ih(2))
    next
      case False
      then show ?thesis
        by (auto simp: saxpy_nth [OF assms(1) len] ih(2))
    qed
  qed
  then show ?case using ih(1) by simp
qed

lemma kernel_accum_nth:
  assumes "4 dvd m" and "k * m \<le> length W" and "kk < k" and "j < m"
  shows "kernel_accum ops m k S i g W ! (kk * m + j) =
           fadd ops (fmul ops (g ! kk) (S ! (i * m + j))) (W ! (kk * m + j))"
proof -
  have "kk * m + j < k * m" by (rule row_before [OF assms(3,4)])
  then show ?thesis
    using kernel_accum_props [OF assms(1,2), of ops g S i] assms(4)
    by (simp add: kernel_accum_def)
qed

lemma kernel_accum_length [simp]:
  "length (kernel_accum ops m k S i g W) = length W"
  unfolding kernel_accum_def by (rule fold_length_frame) simp

lemma kernel_grad_length [simp]: "length (kernel_grad ops m k S Snrms i V W g) = length g"
proof -
  have "length (fold (\<lambda>kk g. g[kk := sdot ops S (i * m) W (kk * m) m]) [0..<k] g) = length g"
    by (rule fold_length_frame) simp
  then show ?thesis by (simp add: kernel_grad_def Let_def)
qed

lemma kernel_dir_length [simp]:
  "length (snd (kernel_dir ops is_forward prox_lam k dz Vproj gnrm i g)) = length g"
  by (simp add: kernel_dir_def Let_def)

lemma kernel_body_W:
  "k_W (mix_kernel_body ops is_forward prox_lam m k S dz Vproj Snrms i st) =
     kernel_accum ops m k S i
       (fst (kernel_swap ops k i
         (sscal ops (snd (kernel_dir ops is_forward prox_lam k dz Vproj (k_gnrm st) i
                     (kernel_grad ops m k S Snrms i (k_V st) (k_W st) (k_g st)))) 0
            (fdiv ops (fof_int ops 1)
               (fst (kernel_dir ops is_forward prox_lam k dz Vproj (k_gnrm st) i
                     (kernel_grad ops m k S Snrms i (k_V st) (k_W st) (k_g st))))) k,
          k_V st)))
       (k_W st)"
  by (simp add: mix_kernel_body_def Let_def split: prod.splits)

lemma kernel_body_g:
  "k_g (mix_kernel_body ops is_forward prox_lam m k S dz Vproj Snrms i st) =
     fst (kernel_swap ops k i
         (sscal ops (snd (kernel_dir ops is_forward prox_lam k dz Vproj (k_gnrm st) i
                     (kernel_grad ops m k S Snrms i (k_V st) (k_W st) (k_g st)))) 0
            (fdiv ops (fof_int ops 1)
               (fst (kernel_dir ops is_forward prox_lam k dz Vproj (k_gnrm st) i
                     (kernel_grad ops m k S Snrms i (k_V st) (k_W st) (k_g st))))) k,
          k_V st))"
  by (simp add: mix_kernel_body_def Let_def split: prod.splits)

lemma kernel_body_gnrm:
  "k_gnrm (mix_kernel_body ops is_forward prox_lam m k S dz Vproj Snrms i st) =
     (if is_forward
      then (k_gnrm st)[i := fst (kernel_dir ops is_forward prox_lam k dz Vproj (k_gnrm st) i
                     (kernel_grad ops m k S Snrms i (k_V st) (k_W st) (k_g st)))]
      else k_gnrm st)"
  by (simp add: mix_kernel_body_def Let_def split: prod.splits)

lemma kernel_body_W_length [simp]:
  "length (k_W (mix_kernel_body ops is_forward prox_lam m k S dz Vproj Snrms i st)) = length (k_W st)"
  by (simp add: kernel_body_W)

lemma kernel_body_gnrm_length [simp]:
  "length (k_gnrm (mix_kernel_body ops is_forward prox_lam m k S dz Vproj Snrms i st)) =
     length (k_gnrm st)"
  by (simp add: kernel_body_gnrm)

lemma kernel_body_g_length [simp]:
  "k \<le> length (k_g st) \<Longrightarrow> i * k + k \<le> length (k_V st) \<Longrightarrow>
   length (k_g (mix_kernel_body ops is_forward prox_lam m k S dz Vproj Snrms i st)) = length (k_g st)"
  unfolding kernel_body_g kernel_swap_def
  using kernel_swap_props [of k "sscal ops (snd (kernel_dir ops is_forward prox_lam k dz Vproj (k_gnrm st) i
                     (kernel_grad ops m k S Snrms i (k_V st) (k_W st) (k_g st)))) 0
            (fdiv ops (fof_int ops 1)
               (fst (kernel_dir ops is_forward prox_lam k dz Vproj (k_gnrm st) i
                     (kernel_grad ops m k S Snrms i (k_V st) (k_W st) (k_g st))))) k" i k "k_V st" ops]
  by simp

text \<open>
  The step that keeps the accumulator: the scratch buffer holds new row minus old row,
  and \<open>W\<close> gains that difference times \<open>S_i\<close>, whatever the mode computed for the row.
\<close>

lemma kernel_body_W_nth:
  assumes "4 dvd m" and "length (k_W st) = k * m" and "k \<le> length (k_g st)"
    and "i * k + k \<le> length (k_V st)" and "kk < k" and "j < m"
  shows "k_W (mix_kernel_body real_ops is_forward prox_lam m k S dz Vproj Snrms i st) ! (kk * m + j) =
           k_W st ! (kk * m + j) +
           (k_V (mix_kernel_body real_ops is_forward prox_lam m k S dz Vproj Snrms i st) ! (i * k + kk)
              - k_V st ! (i * k + kk)) * S ! (i * m + j)"
proof -
  let ?G = "sscal real_ops (snd (kernel_dir real_ops is_forward prox_lam k dz Vproj (k_gnrm st) i
                     (kernel_grad real_ops m k S Snrms i (k_V st) (k_W st) (k_g st)))) 0
            (fdiv real_ops (fof_int real_ops 1)
               (fst (kernel_dir real_ops is_forward prox_lam k dz Vproj (k_gnrm st) i
                     (kernel_grad real_ops m k S Snrms i (k_V st) (k_W st) (k_g st))))) k"
  have lG: "k \<le> length ?G" using assms(3) by simp
  from kernel_swap_props [OF lG assms(4), of real_ops]
  have g: "fst (kernel_swap real_ops k i (?G, k_V st)) ! kk = ?G ! kk - k_V st ! (i * k + kk)"
    and V: "snd (kernel_swap real_ops k i (?G, k_V st)) ! (i * k + kk) = ?G ! kk"
    using assms(5) by (simp_all add: kernel_swap_def real_ops_simps)
  have lW: "k * m \<le> length (k_W st)" using assms(2) by simp
  show ?thesis
    unfolding kernel_body_W kernel_body_V kernel_accum_nth [OF assms(1) lW assms(5,6)] g V
    by (simp add: real_ops_simps)
qed

section \<open>The accumulator relation across a sweep\<close>

lemma sum_list_upt: "sum_list (map f [0..<n]) = (\<Sum>i < n. f i)" for f :: "nat \<Rightarrow> real"
  by (induction n) simp_all

lemma acc_rel_iff:
  "acc_rel n m k S V W \<longleftrightarrow>
     (\<forall>kk < k. \<forall>j < m. W ! (kk * m + j) = (\<Sum>i < n. V ! (i * k + kk) * S ! (i * m + j)))"
  by (auto simp: acc_rel_def sum_list_upt)

lemma sum_change_one:
  fixes f f' :: "nat \<Rightarrow> real"
  assumes "i < n" and "\<And>i'. i' < n \<Longrightarrow> i' \<noteq> i \<Longrightarrow> f' i' = f i'"
  shows "(\<Sum>i' < n. f' i') = (\<Sum>i' < n. f i') + (f' i - f i)"
proof -
  have fin: "finite {..<n}" and mem: "i \<in> {..<n}" using assms(1) by simp_all
  have "sum f' ({..<n} - {i}) = sum f ({..<n} - {i})"
    by (rule sum.cong) (auto simp: assms(2))
  then show ?thesis
    by (simp add: sum.remove [OF fin mem])
qed

lemma kernel_body_acc_rel:
  assumes "4 dvd m" and "length (k_W st) = k * m" and "length (k_V st) = n * k"
    and "k \<le> length (k_g st)" and "i < n"
    and "acc_rel n m k S (k_V st) (k_W st)"
  shows "acc_rel n m k S
           (k_V (mix_kernel_body real_ops is_forward prox_lam m k S dz Vproj Snrms i st))
           (k_W (mix_kernel_body real_ops is_forward prox_lam m k S dz Vproj Snrms i st))"
proof -
  let ?st = "mix_kernel_body real_ops is_forward prox_lam m k S dz Vproj Snrms i st"
  have "Suc i * k \<le> n * k" using assms(5) by (intro mult_le_mono1) simp
  then have row: "i * k + k \<le> length (k_V st)" using assms(3) by simp
  show ?thesis
    unfolding acc_rel_iff
  proof (intro allI impI)
    fix kk j assume kk: "kk < k" and j: "j < m"
    have other: "k_V ?st ! (i' * k + kk) * S ! (i' * m + j) =
        k_V st ! (i' * k + kk) * S ! (i' * m + j)" if "i' \<noteq> i" for i'
      by (simp add: kernel_body_row_frame [OF row_other [OF that kk]])
    have new: "(\<Sum>i' < n. k_V ?st ! (i' * k + kk) * S ! (i' * m + j)) =
        (\<Sum>i' < n. k_V st ! (i' * k + kk) * S ! (i' * m + j)) +
        (k_V ?st ! (i * k + kk) * S ! (i * m + j) - k_V st ! (i * k + kk) * S ! (i * m + j))"
      by (rule sum_change_one [OF assms(5)]) (rule other)
    have old: "k_W st ! (kk * m + j) = (\<Sum>i' < n. k_V st ! (i' * k + kk) * S ! (i' * m + j))"
      using assms(6) kk j by (simp add: acc_rel_iff)
    have W: "k_W ?st ! (kk * m + j) =
        k_W st ! (kk * m + j) + (k_V ?st ! (i * k + kk) - k_V st ! (i * k + kk)) * S ! (i * m + j)"
      by (rule kernel_body_W_nth [OF assms(1,2,4) row kk j])
    show "k_W ?st ! (kk * m + j) = (\<Sum>i' < n. k_V ?st ! (i' * k + kk) * S ! (i' * m + j))"
      unfolding W new old by (simp add: left_diff_distrib)
  qed
qed

lemma kernel_loop_acc_rel:
  assumes "4 dvd m" and "\<forall>i \<in> set (visited index). i < n"
    and "length (k_W st) = k * m" and "length (k_V st) = n * k" and "k \<le> length (k_g st)"
    and "acc_rel n m k S (k_V st) (k_W st)"
  shows "acc_rel n m k S
           (k_V (mix_kernel_loop real_ops is_forward prox_lam m k S dz Vproj Snrms index st))
           (k_W (mix_kernel_loop real_ops is_forward prox_lam m k S dz Vproj Snrms index st))"
  using assms(2-)
proof (induction index arbitrary: st)
  case Nil
  then show ?case by simp
next
  case (Cons i rest)
  show ?case
  proof (cases "i = 0")
    case True
    with Cons.prems show ?thesis by simp
  next
    case False
    let ?st = "mix_kernel_body real_ops is_forward prox_lam m k S dz Vproj Snrms i st"
    from Cons.prems(1) False have i: "i < n" and rest: "\<forall>i \<in> set (visited rest). i < n"
      by (simp_all add: visited_Cons)
    have "Suc i * k \<le> n * k" using i by (intro mult_le_mono1) simp
    then have row: "i * k + k \<le> length (k_V st)" using Cons.prems(3) by simp
    have g: "k \<le> length (k_g ?st)" using Cons.prems(4) row by simp
    have "acc_rel n m k S (k_V ?st) (k_W ?st)"
      by (rule kernel_body_acc_rel [OF assms(1) Cons.prems(2,3,4) i Cons.prems(5)])
    from Cons.IH [OF rest _ _ g this] Cons.prems(2,3) False show ?thesis by simp
  qed
qed

text \<open>
  C4.  In exact arithmetic the coordinate-update kernel, in either mode, keeps the
  accumulator relation: if \<open>W[kk][j]\<close> is the sum over all \<open>n\<close> variables of
  \<open>V[i][kk] * S[i][j]\<close> when the kernel is entered, it is that sum for the updated \<open>V\<close>
  when the kernel returns.
\<close>

theorem kernel_keeps_accumulator_relation:
  assumes "kernel_wf is_forward n m k index S dz V Vproj W gnrm Snrms g"
    and "acc_rel n m k S V W"
  shows "acc_rel n m k S
           (k_V (mix_kernel real_ops is_forward prox_lam m k index S dz V Vproj W gnrm Snrms g))
           (k_W (mix_kernel real_ops is_forward prox_lam m k index S dz V Vproj W gnrm Snrms g))"
  unfolding mix_kernel_def
  by (rule kernel_loop_acc_rel) (use assms in \<open>simp_all add: kernel_wf_def\<close>)

lemma ex_wf:
  "kernel_wf True 2 4 4 ex_index ex_S [] ex_V [] ex_W [0, 0] [1, 1 :: real] [0, 0, 0, 0]"
  by (simp add: kernel_wf_def ex_defs visited_def)

lemma ex_acc_rel: "acc_rel 2 4 4 ex_S ex_V ex_W"
  by (simp add: acc_rel_def ex_defs upt_4 upt_rec [of 0 2] upt_rec [of "Suc 0" 2])

theorem kernel_keeps_accumulator_relation_witness:
  "kernel_wf True 2 4 4 ex_index ex_S [] ex_V [] ex_W [0, 0] [1, 1 :: real] [0, 0, 0, 0] \<and>
   acc_rel 2 4 4 ex_S ex_V ex_W \<and>
   acc_rel 2 4 4 ex_S
     (k_V (mix_kernel real_ops True 0 4 4 ex_index ex_S [] ex_V [] ex_W [0, 0] [1, 1] [0, 0, 0, 0]))
     (k_W (mix_kernel real_ops True 0 4 4 ex_index ex_S [] ex_V [] ex_W [0, 0] [1, 1] [0, 0, 0, 0]))"
  using ex_wf ex_acc_rel kernel_keeps_accumulator_relation [OF ex_wf ex_acc_rel, of 0]
  by simp

section \<open>The norm of an updated row\<close>

lemma kernel_body_forward_row:
  assumes "4 dvd k" and "k \<le> length (k_g st)" and "i * k + k \<le> length (k_V st)"
    and "i < length (k_gnrm st)"
  shows "k_gnrm (mix_kernel_body real_ops True prox_lam m k S dz Vproj Snrms i st) ! i =
           sqrt (\<Sum>j < k. (kernel_grad real_ops m k S Snrms i (k_V st) (k_W st) (k_g st) ! j)\<^sup>2)"
    and "kk < k \<Longrightarrow>
         k_V (mix_kernel_body real_ops True prox_lam m k S dz Vproj Snrms i st) ! (i * k + kk) =
           - (kernel_grad real_ops m k S Snrms i (k_V st) (k_W st) (k_g st) ! kk) /
             sqrt (\<Sum>j < k. (kernel_grad real_ops m k S Snrms i (k_V st) (k_W st) (k_g st) ! j)\<^sup>2)"
proof -
  let ?g = "kernel_grad real_ops m k S Snrms i (k_V st) (k_W st) (k_g st)"
  let ?n = "sqrt (\<Sum>j < k. (?g ! j)\<^sup>2)"
  have lg: "k \<le> length ?g" using assms(2) by simp
  have dir1: "fst (kernel_dir real_ops True prox_lam k dz Vproj (k_gnrm st) i ?g) = ?n"
    by (simp add: kernel_dir_def snrm2_def sdot_real [OF assms(1)] real_ops_simps power2_eq_square)
  have dir2: "snd (kernel_dir real_ops True prox_lam k dz Vproj (k_gnrm st) i ?g) =
      sscal real_ops ?g 0 (- 1) k"
    by (simp add: kernel_dir_def real_ops_simps)
  show "k_gnrm (mix_kernel_body real_ops True prox_lam m k S dz Vproj Snrms i st) ! i = ?n"
    using assms(4) by (simp add: kernel_body_gnrm dir1)
  assume kk: "kk < k"
  let ?G = "sscal real_ops (sscal real_ops ?g 0 (- 1) k) 0 (fdiv real_ops (fof_int real_ops 1) ?n) k"
  have l1: "0 + k \<le> length ?g" using lg by simp
  have l2: "0 + k \<le> length (sscal real_ops ?g 0 (- 1) k)" using lg by simp
  have G: "?G ! kk = - (?g ! kk) / ?n"
    using kk by (simp add: sscal_nth [OF l2] sscal_nth [OF l1] real_ops_simps)
  have lG: "k \<le> length ?G" using lg by simp
  from kernel_swap_props [OF lG assms(3), of real_ops]
  have "snd (kernel_swap real_ops k i (?G, k_V st)) ! (i * k + kk) = ?G ! kk"
    using kk by (simp add: kernel_swap_def)
  then show "k_V (mix_kernel_body real_ops True prox_lam m k S dz Vproj Snrms i st) ! (i * k + kk) =
      - (?g ! kk) / ?n"
    unfolding kernel_body_V dir1 dir2 G .
qed

lemma kernel_body_forward_norm:
  assumes "4 dvd k" and "k \<le> length (k_g st)" and "i * k + k \<le> length (k_V st)"
    and "i < length (k_gnrm st)"
    and "k_gnrm (mix_kernel_body real_ops True prox_lam m k S dz Vproj Snrms i st) ! i \<noteq> 0"
  shows "(\<Sum>kk < k. (k_V (mix_kernel_body real_ops True prox_lam m k S dz Vproj Snrms i st)
            ! (i * k + kk))\<^sup>2) = 1"
proof -
  let ?g = "kernel_grad real_ops m k S Snrms i (k_V st) (k_W st) (k_g st)"
  let ?s = "\<Sum>j < k. (?g ! j)\<^sup>2"
  note row = kernel_body_forward_row [OF assms(1-4)]
  have nz: "sqrt ?s \<noteq> 0" using assms(5) unfolding row(1) .
  have pos: "0 \<le> ?s" by (rule sum_nonneg) simp
  have "(\<Sum>kk < k. (k_V (mix_kernel_body real_ops True prox_lam m k S dz Vproj Snrms i st)
            ! (i * k + kk))\<^sup>2) = (\<Sum>kk < k. (?g ! kk)\<^sup>2 / ?s)"
  proof (rule sum.cong [OF refl])
    fix kk assume "kk \<in> {..<k}"
    then have kk: "kk < k" by simp
    show "(k_V (mix_kernel_body real_ops True prox_lam m k S dz Vproj Snrms i st) ! (i * k + kk))\<^sup>2
        = (?g ! kk)\<^sup>2 / ?s"
    proof -
      have "(- (?g ! kk) / sqrt ?s)\<^sup>2 = (?g ! kk)\<^sup>2 / (sqrt ?s)\<^sup>2"
        by (simp add: power_divide)
      also have "(sqrt ?s)\<^sup>2 = ?s" using pos by (rule real_sqrt_pow2)
      finally show ?thesis unfolding row(2) [OF kk] .
    qed
  qed
  also have "\<dots> = ?s / ?s" by (rule sum_divide_distrib [symmetric])
  also have "\<dots> = 1" using nz by simp
  finally show ?thesis .
qed

lemma kernel_loop_gnrm_frame:
  "i \<notin> set (visited index) \<Longrightarrow>
   k_gnrm (mix_kernel_loop ops is_forward prox_lam m k S dz Vproj Snrms index st) ! i = k_gnrm st ! i"
  by (induction index arbitrary: st) (auto simp: visited_Cons kernel_body_gnrm)

lemma kernel_loop_forward_norm:
  assumes "4 dvd k" and "\<forall>i \<in> set (visited index). i < n"
    and "length (k_V st) = n * k" and "k \<le> length (k_g st)" and "length (k_gnrm st) = n"
    and "i \<in> set (visited index)"
    and "k_gnrm (mix_kernel_loop real_ops True prox_lam m k S dz Vproj Snrms index st) ! i \<noteq> 0"
  shows "(\<Sum>kk < k. (k_V (mix_kernel_loop real_ops True prox_lam m k S dz Vproj Snrms index st)
            ! (i * k + kk))\<^sup>2) = 1"
  using assms(2-)
proof (induction index arbitrary: st)
  case Nil
  then show ?case by simp
next
  case (Cons i0 rest)
  show ?case
  proof (cases "i0 = 0")
    case True
    with Cons.prems show ?thesis by (simp add: visited_Cons)
  next
    case False
    let ?st = "mix_kernel_body real_ops True prox_lam m k S dz Vproj Snrms i0 st"
    let ?fin = "mix_kernel_loop real_ops True prox_lam m k S dz Vproj Snrms rest ?st"
    from Cons.prems(1) False have i0: "i0 < n" and rest: "\<forall>i \<in> set (visited rest). i < n"
      by (simp_all add: visited_Cons)
    have "Suc i0 * k \<le> n * k" using i0 by (intro mult_le_mono1) simp
    then have row: "i0 * k + k \<le> length (k_V st)" using Cons.prems(2) by simp
    have lV: "length (k_V ?st) = n * k" using Cons.prems(2) by simp
    have lg: "k \<le> length (k_g ?st)" using Cons.prems(3) row by simp
    have ln: "length (k_gnrm ?st) = n" using Cons.prems(4) by simp
    have fin: "mix_kernel_loop real_ops True prox_lam m k S dz Vproj Snrms (i0 # rest) st = ?fin"
      using False by simp
    show ?thesis
    proof (cases "i \<in> set (visited rest)")
      case True
      from Cons.IH [OF rest lV lg ln True] Cons.prems(6) show ?thesis
        unfolding fin by simp
    next
      case False
      with Cons.prems(5) \<open>i0 \<noteq> 0\<close> have eq: "i = i0" by (simp add: visited_Cons)
      have gn: "k_gnrm ?fin ! i = k_gnrm ?st ! i"
        using False by (rule kernel_loop_gnrm_frame)
      have Vf: "k_V ?fin ! (i * k + kk) = k_V ?st ! (i * k + kk)" if "kk < k" for kk
      proof (rule kernel_loop_row_frame, rule ballI)
        fix i' assume "i' \<in> set (visited rest)"
        with False have "i \<noteq> i'" by auto
        then show "i * k + kk < i' * k \<or> i' * k + k \<le> i * k + kk"
          using that by (rule row_other)
      qed
      have nz: "k_gnrm ?st ! i0 \<noteq> 0"
      proof -
        from Cons.prems(6) have "k_gnrm ?fin ! i \<noteq> 0" unfolding fin .
        then have "k_gnrm ?st ! i \<noteq> 0" unfolding gn .
        then show ?thesis unfolding eq .
      qed
      have i0n: "i0 < length (k_gnrm st)" using i0 Cons.prems(4) by simp
      have "(\<Sum>kk < k. (k_V ?fin ! (i * k + kk))\<^sup>2) = (\<Sum>kk < k. (k_V ?st ! (i * k + kk))\<^sup>2)"
        by (rule sum.cong [OF refl]) (simp add: Vf)
      also have "\<dots> = 1"
        unfolding eq
        by (rule kernel_body_forward_norm [OF assms(1) Cons.prems(3) row i0n nz])
      finally show ?thesis unfolding fin .
    qed
  qed
qed

lemma sum_lessThan_4: "(\<Sum>kk < 4. f kk) = f 0 + f 1 + f 2 + f (3::nat)" for f :: "nat \<Rightarrow> real"
  by (simp add: eval_nat_numeral lessThan_Suc)

lemma ex_adjoint_sweep:
  "mix_kernel real_ops False 0 4 4 ex_index ex_S [0, 2] ex_U ex_V ex_W0 [0, 1] [1, 1] [0, 0, 0, 0] =
     \<lparr> k_delta = 0, k_V = [0, 0, 0, 0, - 2, 0, 0, 0],
       k_W = [- 2, 0, 0, 0, 0, 0, 0, 0, 0, 0, 0, 0, 0, 0, 0, 0],
       k_gnrm = [0, 1], k_g = [- 2, 0, 0, 0] \<rparr>"
  by (simp add: kernel_eval ex_defs ex_U_def)

text \<open>
  C3, as the code has it.  In exact arithmetic, after a coordinate-update kernel call in
  forward mode every row the sweep updated has Euclidean norm 1, provided the divisor of
  its last update, the gradient norm the sweep stored in \<open>gnrm\<close>, is not 0.  Adjoint mode
  is not covered: there the new row is divided by \<open>gnrm[i] + prox_lam\<close>, not by its own
  norm.
\<close>

theorem forward_kernel_rows_have_norm_1:
  assumes "kernel_wf True n m k index S dz V Vproj W gnrm Snrms g"
    and "i \<in> set (visited index)"
    and "k_gnrm (mix_kernel real_ops True prox_lam m k index S dz V Vproj W gnrm Snrms g) ! i \<noteq> 0"
  shows "sqrt (\<Sum>kk < k.
           (k_V (mix_kernel real_ops True prox_lam m k index S dz V Vproj W gnrm Snrms g)
              ! (i * k + kk))\<^sup>2) = 1"
proof -
  have "(\<Sum>kk < k.
           (k_V (mix_kernel real_ops True prox_lam m k index S dz V Vproj W gnrm Snrms g)
              ! (i * k + kk))\<^sup>2) = 1"
    unfolding mix_kernel_def
    by (rule kernel_loop_forward_norm [where n = n])
      (use assms in \<open>simp_all add: kernel_wf_def mix_kernel_def\<close>)
  then show ?thesis by simp
qed

theorem forward_kernel_rows_have_norm_1_witness:
  "kernel_wf True 2 4 4 ex_index ex_S [] ex_V [] ex_W [0, 0] [1, 1 :: real] [0, 0, 0, 0] \<and>
   1 \<in> set (visited ex_index) \<and>
   k_gnrm (mix_kernel real_ops True 0 4 4 ex_index ex_S [] ex_V [] ex_W [0, 0] [1, 1] [0, 0, 0, 0]) ! 1
     = 1 \<and>
   sqrt (\<Sum>kk < 4.
     (k_V (mix_kernel real_ops True 0 4 4 ex_index ex_S [] ex_V [] ex_W [0, 0] [1, 1] [0, 0, 0, 0])
        ! (1 * 4 + kk))\<^sup>2) = 1"
proof -
  have v: "1 \<in> set (visited ex_index)" by (simp add: visited_def ex_index_def)
  have g: "k_gnrm (mix_kernel real_ops True 0 4 4 ex_index ex_S [] ex_V [] ex_W [0, 0] [1, 1]
      [0, 0, 0, 0]) ! 1 = 1"
    by (simp add: ex_sweep_1)
  then have nz: "k_gnrm (mix_kernel real_ops True 0 4 4 ex_index ex_S [] ex_V [] ex_W [0, 0] [1, 1]
      [0, 0, 0, 0]) ! 1 \<noteq> 0"
    by simp
  from forward_kernel_rows_have_norm_1 [OF ex_wf v nz] ex_wf v g show ?thesis
    by simp
qed

text \<open>
  The claim as stated fails in adjoint mode.  On the small instance with \<open>U = 0\<close>,
  \<open>Phi = 0\<close>, \<open>dz[1] = 2\<close>, stored norm \<open>gnrm[1] = 1\<close> and \<open>prox_lam = 0\<close> the divisor is 1
  and the updated row of \<open>U\<close> is \<open>(-2, 0, 0, 0)\<close>, of norm 2.
\<close>

theorem adjoint_kernel_row_norm_counterexample:
  "kernel_wf False 2 4 4 ex_index ex_S [0, 2] ex_U ex_V ex_W0 [0, 1] [1, 1 :: real] [0, 0, 0, 0] \<and>
   1 \<in> set (visited ex_index) \<and>
   [0, 1 :: real] ! 1 + 0 = 1 \<and>
   sqrt (\<Sum>kk < 4.
     (k_V (mix_kernel real_ops False 0 4 4 ex_index ex_S [0, 2] ex_U ex_V ex_W0 [0, 1] [1, 1]
        [0, 0, 0, 0]) ! (1 * 4 + kk))\<^sup>2) = 2"
proof -
  have w: "kernel_wf False 2 4 4 ex_index ex_S [0, 2] ex_U ex_V ex_W0 [0, 1] [1, 1 :: real]
      [0, 0, 0, 0]"
    by (simp add: kernel_wf_def visited_def ex_defs ex_U_def)
  have v: "1 \<in> set (visited ex_index)" by (simp add: visited_def ex_index_def)
  have n: "sqrt (\<Sum>kk < 4.
     (k_V (mix_kernel real_ops False 0 4 4 ex_index ex_S [0, 2] ex_U ex_V ex_W0 [0, 1] [1, 1]
        [0, 0, 0, 0]) ! (1 * 4 + kk))\<^sup>2) = 2"
    by (simp add: ex_adjoint_sweep sum_lessThan_4)
  from w v n show ?thesis by simp
qed

section \<open>The decoded values\<close>

lemma saturate_real:
  "saturate real_ops x = (if x < 0 then 0 else if 1 < x then 1 else x)"
  by (simp add: saturate_def real_ops_simps)

lemma saturate_real_range: "0 \<le> saturate real_ops x \<and> saturate real_ops x \<le> 1"
  by (simp add: saturate_real)

lemma decode_written:
  "i \<in> set (visited index) \<Longrightarrow> i < length z \<Longrightarrow>
   mix_forward_decode ops k V index z ! i = decode ops (V ! (i * k))"
proof (induction index arbitrary: z)
  case Nil
  then show ?case by simp
next
  case (Cons i0 rest)
  show ?case
  proof (cases "i0 = 0")
    case True
    with Cons.prems show ?thesis by (simp add: visited_Cons)
  next
    case False
    show ?thesis
    proof (cases "i \<in> set (visited rest)")
      case True
      from Cons.IH [OF True, of "z[i0 := decode ops (V ! (i0 * k))]"] Cons.prems(2) False
      show ?thesis by simp
    next
      case no: False
      with Cons.prems(1) False have eq: "i = i0" by (simp add: visited_Cons)
      show ?thesis
        using False no Cons.prems(2) by (simp add: decode_frame eq [symmetric])
    qed
  qed
qed

text \<open>
  For any arithmetic, what \<open>mix_forward\<close> leaves in \<open>z[i]\<close> at a listed id is the
  expression of lines 207-209 on the first coordinate of the final row \<open>i\<close>.
\<close>

lemma forward_decodes_visited:
  assumes "i \<in> set (visited index)" and "i < length z"
  shows "f_z (mix_forward ops max_iter eps n m k index S z V W gnrm Snrms cache) ! i =
           saturate ops (fsub ops (fof_int ops 1)
             (fdiv ops
               (facos ops
                 (fsub ops
                   (fmul ops
                     (saturate ops
                       (fdiv ops
                         (fadd ops
                           (f_V (mix_forward ops max_iter eps n m k index S z V W gnrm Snrms cache)
                              ! (i * k))
                           (fof_int ops 1))
                         (fof_int ops 2)))
                     (fof_int ops 2))
                   (fof_int ops 1)))
               (M_PI ops)))"
  unfolding mix_forward_z decode_written [OF assms]
  by (simp add: decode_def Let_def)

subsection \<open>A zero weight row\<close>

lemma nan_ops_simps:
  "fadd nan_ops = nan_lift2 (+)" "fsub nan_ops = nan_lift2 (-)" "fmul nan_ops = nan_lift2 (*)"
  "fdiv nan_ops = nan_div" "fneg nan_ops = map_option uminus" "fsqrt nan_ops = nan_sqrt"
  "facos nan_ops = nan_acos" "flt nan_ops = nan_lt" "fisnan nan_ops = (\<lambda>x. x = None)"
  "fof_int nan_ops = (\<lambda>i. Some (of_int i))" "M_PI nan_ops = Some pi"
  by (simp_all add: nan_ops_def)

lemmas zw_defs = zw_S_def zw_V_def zw_W_def zw_Snrms_def zw_z_def zw_gnrm_def zw_cache_def

lemma zw_sweep:
  "mix_kernel nan_ops True (Some 0) 4 4 ex_index zw_S [] zw_V [] zw_W zw_gnrm zw_Snrms zw_cache =
     \<lparr> k_delta = None,
       k_V = [Some 1, Some 0, Some 0, Some 0, None, None, None, None],
       k_W = [None, None, None, None, None, None, None, None,
              None, None, None, None, None, None, None, None],
       k_gnrm = [Some 0, Some 0], k_g = [None, None, None, None] \<rparr>"
  by (simp add: mix_kernel_def mix_kernel_body_def kernel_grad_def kernel_dir_def
      kernel_swap_def kernel_accum_def snrm2_def sdot_4 saxpy_4 sscal_4 dp4_def saxpy4_def upt_4
      nan_ops_simps zw_defs ex_index_def Let_def)

lemma zw_forward_loop:
  "mix_forward_loop nan_ops 1 4 4 ex_index zw_S zw_Snrms 0 (Some (1 / 2)) 0 zw_V zw_W zw_gnrm zw_cache =
     (1, 1, [Some 1, Some 0, Some 0, Some 0, None, None, None, None],
      [None, None, None, None, None, None, None, None,
       None, None, None, None, None, None, None, None],
      [Some 0, Some 0], [None, None, None, None])"
  apply (subst mix_forward_loop.simps)
  apply (simp add: nan_ops_simps zw_sweep [simplified nan_ops_simps, simplified])
  apply (subst mix_forward_loop.simps)
  apply simp
  done

text \<open>
  C6.  The code does not keep every decoded value in \<open>[0, 1]\<close>.  Variable 1 has a zero
  weight row, so the first sweep computes \<open>g = 0\<close> and \<open>gnrmi = 0\<close>, and line 160 scales
  \<open>g\<close> by \<open>1 / gnrmi\<close>: zero times the result of \<open>1 / 0\<close> is NaN, row 1 of \<open>V\<close> is NaN, and
  \<open>saturate\<close>, which only adds multiples of its argument, hands the NaN on.  After one
  iteration \<open>mix_forward\<close> writes NaN into \<open>z[1]\<close>, a listed id.
\<close>

theorem forward_decodes_nan_for_zero_weight_row:
  "1 \<in> set (visited ex_index) \<and>
   f_V (mix_forward nan_ops 1 (Some (1 / 2)) 2 4 4 ex_index zw_S zw_z zw_V zw_W zw_gnrm zw_Snrms zw_cache)
     ! (1 * 4) = None \<and>
   f_z (mix_forward nan_ops 1 (Some (1 / 2)) 2 4 4 ex_index zw_S zw_z zw_V zw_W zw_gnrm zw_Snrms zw_cache)
     ! 1 = None \<and>
   fisnan nan_ops
     (f_z (mix_forward nan_ops 1 (Some (1 / 2)) 2 4 4 ex_index zw_S zw_z zw_V zw_W zw_gnrm zw_Snrms zw_cache)
        ! 1) \<and>
   (\<nexists>x. f_z (mix_forward nan_ops 1 (Some (1 / 2)) 2 4 4 ex_index zw_S zw_z zw_V zw_W zw_gnrm zw_Snrms
            zw_cache) ! 1 = Some x \<and> 0 \<le> x \<and> x \<le> 1)"
proof -
  have v: "1 \<in> set (visited ex_index)" by (simp add: visited_def ex_index_def)
  have V: "f_V (mix_forward nan_ops 1 (Some (1 / 2)) 2 4 4 ex_index zw_S zw_z zw_V zw_W zw_gnrm
      zw_Snrms zw_cache) ! (1 * 4) = None"
    by (simp add: mix_forward_V zw_forward_loop)
  have l: "1 < length zw_z" by (simp add: zw_z_def)
  have z: "f_z (mix_forward nan_ops 1 (Some (1 / 2)) 2 4 4 ex_index zw_S zw_z zw_V zw_W zw_gnrm
      zw_Snrms zw_cache) ! 1 = None"
    unfolding forward_decodes_visited [OF v l] V
    by (simp add: saturate_def nan_ops_simps)
  from v V z show ?thesis by (simp add: nan_ops_simps)
qed

end
